theory Spec2Isabelle
  imports Complex_Main "HOL-Library.AList" "HOL-Library.Multiset" "HOL-Library.Char_ord"
    "HOL-Library.List_Lexorder" "HOL-Library.Product_Lexorder"
begin

section \<open>Numbers and strings\<close>

text \<open>
  The program is JavaScript (\<^verbatim>\<open>src/js/dataModel.js\<close> and the tee sheet of the UI
  controller).  Its numbers are modelled as exact values: handicaps, sums and averages of
  handicaps are rationals, counts and indices are naturals, team ids and hole numbers are
  integers.  The rounding of binary floating point, overflow and the literal
  \<^verbatim>\<open>Infinity\<close> are outside this model; \<^verbatim>\<open>NaN\<close> is the value \<open>None\<close> of
  \<open>parseFloat\<close>.  Strings are character lists.
\<close>

definition is_space :: "char \<Rightarrow> bool" where
  "is_space c = (c \<in> set [CHR '' '', CHR 0x09, CHR 0x0A, CHR 0x0B, CHR 0x0C, CHR 0x0D])"

text \<open>\<^verbatim>\<open>String.prototype.trim\<close>: white space removed at both ends.\<close>

definition trim :: "string \<Rightarrow> string" where
  "trim s = rev (dropWhile is_space (rev (dropWhile is_space s)))"



definition is_digit :: "char \<Rightarrow> bool" where
  "is_digit c = (c \<in> set ''0123456789'')"

definition digit_val :: "char \<Rightarrow> nat" where
  "digit_val c = of_char c - 48"

definition digits_val :: "string \<Rightarrow> nat" where
  "digits_val ds = foldl (\<lambda>a c. 10 * a + digit_val c) 0 ds"

text \<open>The exponent part of a decimal literal, read only when it is complete
  (\<^verbatim>\<open>e\<close> or \<^verbatim>\<open>E\<close>, an optional sign, at least one digit); otherwise the exponent is 0.\<close>

definition exponent_part :: "string \<Rightarrow> int" where
  "exponent_part w =
     (case w of
        [] \<Rightarrow> 0
      | c # r \<Rightarrow>
          if c = CHR ''e'' \<or> c = CHR ''E'' then
            (case r of
               [] \<Rightarrow> 0
             | d # r' \<Rightarrow>
                 if d = CHR ''-'' then
                   (if takeWhile is_digit r' = [] then 0
                    else - int (digits_val (takeWhile is_digit r')))
                 else if d = CHR ''+'' then int (digits_val (takeWhile is_digit r'))
                 else int (digits_val (takeWhile is_digit r)))
          else 0)"

definition scale10 :: "rat \<Rightarrow> int \<Rightarrow> rat" where
  "scale10 x e = (if 0 \<le> e then x * 10 ^ nat e else x / 10 ^ nat (- e))"

text \<open>
  The builtin \<^verbatim>\<open>parseFloat\<close>: leading white space is skipped and the longest prefix
  that is a decimal literal (sign, digits, fraction, exponent) is read; text after it is
  ignored.  \<open>None\<close> is \<^verbatim>\<open>NaN\<close>: no digit could be read.
\<close>

definition parseFloat :: "string \<Rightarrow> rat option" where
  "parseFloat s =
     (let t = dropWhile is_space s;
          neg = (case t of [] \<Rightarrow> False | c # _ \<Rightarrow> c = CHR ''-'');
          u = (case t of [] \<Rightarrow> [] | c # r \<Rightarrow> if c = CHR ''-'' \<or> c = CHR ''+'' then r else t);
          ip = takeWhile is_digit u;
          v = dropWhile is_digit u;
          dot = (case v of [] \<Rightarrow> False | c # _ \<Rightarrow> c = CHR ''.'');
          fp = (if dot then takeWhile is_digit (tl v) else []);
          w = (if dot then dropWhile is_digit (tl v) else v);
          m = of_nat (digits_val ip) + of_nat (digits_val fp) / 10 ^ length fp
      in if ip = [] \<and> fp = [] then None
         else Some (scale10 (if neg then - m else m) (exponent_part w)))"

section \<open>The data store\<close>

text \<open>
  A player object.  \<open>oid\<close> is the identity of the object: the code compares players by
  reference (\<^verbatim>\<open>p === player\<close>), every \<^verbatim>\<open>addPlayer\<close> and every imported CSV line creates
  a new object, and no player is changed after its creation; so a reference is modelled
  as the immutable record with its identity, and \<^verbatim>\<open>===\<close> as equality of records.  The
  field \<^verbatim>\<open>displayHandicap\<close>, a printed form of \<open>handicap\<close> and \<open>isPlus\<close>, is left out.
\<close>

record player =
  oid :: nat
  name :: string
  handicap :: rat
  isPlus :: bool

record team =
  id :: int
  members :: "player option list"
  totalHandicap :: rat

record groups =
  grpA :: "player list"
  grpB :: "player list"
  grpC :: "player list"
  grpD :: "player list"

datatype start_format = Sequential | Shotgun

text \<open>\<open>startTime\<close> is the \<^verbatim>\<open>HH:MM\<close> setting read as minutes after midnight.\<close>

record settings =
  balanceTeams :: bool
  maxHandicapDiff :: rat
  startFormat :: start_format
  startTime :: nat
  timeInterval :: int

record drafted =
  dmembers :: "player option list"
  partialHandicap :: rat

datatype letter = A | B | C | D

record draft_state =
  numTeams :: nat
  currentTeamIndex :: nat
  currentRoundIndex :: nat
  availableGroups :: groups
  draftedTeamsData :: "drafted list"
  targetTeamHandicap :: rat
  avgPlayerHandicap :: rat

text \<open>
  The store \<^verbatim>\<open>_data\<close>.  \<open>holeAssignments\<close> is the object from hole number to the list
  of team ids, as an association list with one entry for each key.  \<open>nextOid\<close> is the
  identity the next created player object receives.
\<close>

record data =
  players :: "player list"
  groups :: groups
  teams :: "team list"
  holeAssignments :: "(int \<times> int list) list"
  settings :: settings
  interactiveDraftState :: "draft_state option"
  nextOid :: nat

definition doubleStackedHoles :: "int list" where
  "doubleStackedHoles = [3, 4, 6, 7, 8, 10, 12, 13, 16, 18]"

definition empty_groups :: groups where
  "empty_groups = \<lparr>grpA = [], grpB = [], grpC = [], grpD = []\<rparr>"

section \<open>Validation and the player registry\<close>

datatype name_error = NameRequired | NameFormat

datatype handicap_error = HandicapRequired | HandicapNotNumber | HandicapUsePlus | HandicapExceeds

definition validatePlayerName :: "string \<Rightarrow> name_error option" where
  "validatePlayerName nm =
     (if nm = [] \<or> trim nm = [] then Some NameRequired
      else if CHR '','' \<notin> set nm then Some NameFormat
      else None)"

text \<open>The two constants \<^verbatim>\<open>isPlus\<close> and \<^verbatim>\<open>handicapValue\<close> of \<open>validateHandicap\<close>;
  \<^verbatim>\<open>replace('+', '')\<close> removes the first plus sign.\<close>

definition hasPlus :: "string \<Rightarrow> bool" where
  "hasPlus h = (CHR ''+'' \<in> set h)"

definition handicapValue :: "string \<Rightarrow> rat option" where
  "handicapValue h = parseFloat (if hasPlus h then remove1 (CHR ''+'') h else h)"

definition validateHandicap :: "string \<Rightarrow> handicap_error + (rat \<times> bool)" where
  "validateHandicap h =
     (if h = [] \<or> trim h = [] then Inl HandicapRequired
      else
        (case handicapValue h of
           None \<Rightarrow> Inl HandicapNotNumber
         | Some v \<Rightarrow>
             if v < 0 \<and> \<not> hasPlus h then Inl HandicapUsePlus
             else if v > 54 then Inl HandicapExceeds
             else Inr (v, hasPlus h)))"

definition getNumericHandicap :: "player \<Rightarrow> rat" where
  "getNumericHandicap p = (if isPlus p then - handicap p else handicap p)"

text \<open>The failure of \<open>addPlayer\<close> reports the message of each of the two validations.\<close>

definition addPlayer ::
  "string \<Rightarrow> string \<Rightarrow> data \<Rightarrow> (name_error option \<times> handicap_error option) + (player \<times> data)" where
  "addPlayer nameInput handicapInput d =
     (case (validatePlayerName nameInput, validateHandicap handicapInput) of
        (None, Inr (v, isP)) \<Rightarrow>
          let p = \<lparr>oid = nextOid d, name = trim nameInput, handicap = v, isPlus = isP\<rparr>
          in Inr (p, d\<lparr>players := players d @ [p], nextOid := Suc (nextOid d)\<rparr>)
      | (ne, Inl he) \<Rightarrow> Inl (ne, Some he)
      | (ne, Inr _) \<Rightarrow> Inl (ne, None))"

definition removePlayer :: "int \<Rightarrow> data \<Rightarrow> bool \<times> data" where
  "removePlayer i d =
     (if 0 \<le> i \<and> i < int (length (players d))
      then (True, d\<lparr>players := take (nat i) (players d) @ drop (Suc (nat i)) (players d),
                      interactiveDraftState := None\<rparr>)
      else (False, d))"


section \<open>Grouping\<close>

datatype error =
    InsufficientPlayers
  | NotEnoughPlayers
  | InvalidInput
  | AlreadyAssigned
  | HoleFull
  | NotOnHole
  | DraftNotInitialized
  | EmptyPool letter
  | DraftNotComplete
  | TypeError

text \<open>\<^verbatim>\<open>xs.slice(a, b)\<close> and \<^verbatim>\<open>xs.slice(a)\<close> for indices that are not negative.\<close>

definition slice :: "nat \<Rightarrow> nat \<Rightarrow> 'a list \<Rightarrow> 'a list" where
  "slice a b xs = take (b - a) (drop a xs)"

definition slice_from :: "nat \<Rightarrow> 'a list \<Rightarrow> 'a list" where
  "slice_from a xs = drop a xs"

text \<open>\<^verbatim>\<open>Math.ceil(n / 4)\<close>.\<close>

definition quarter :: "nat \<Rightarrow> nat" where
  "quarter n = nat \<lceil>(of_nat n :: rat) / 4\<rceil>"

text \<open>
  \<^verbatim>\<open>Array.prototype.sort\<close> is stable, and the comparator is the difference of the two
  numeric handicaps: the sorted copy is the stable sort by that key.
\<close>

definition groupPlayers :: "data \<Rightarrow> error + data" where
  "groupPlayers d =
     (if length (players d) < 4 then Inl InsufficientPlayers
      else
        let sortedPlayers = sort_key getNumericHandicap (players d);
            quarterSize = quarter (length sortedPlayers)
        in Inr (d\<lparr>groups :=
                    \<lparr>grpA = slice 0 quarterSize sortedPlayers,
                     grpB = slice quarterSize (quarterSize * 2) sortedPlayers,
                     grpC = slice (quarterSize * 2) (quarterSize * 3) sortedPlayers,
                     grpD = slice_from (quarterSize * 3) sortedPlayers\<rparr>,
                  interactiveDraftState := None\<rparr>))"

definition canFormTeam :: "data \<Rightarrow> bool" where
  "canFormTeam d =
     (length (grpA (groups d)) > 0 \<and> length (grpB (groups d)) > 0 \<and>
      length (grpC (groups d)) > 0 \<and> length (grpD (groups d)) > 0)"


section \<open>Team formation\<close>

definition grp :: "letter \<Rightarrow> groups \<Rightarrow> player list" where
  "grp k g = (case k of A \<Rightarrow> grpA g | B \<Rightarrow> grpB g | C \<Rightarrow> grpC g | D \<Rightarrow> grpD g)"

definition set_grp :: "letter \<Rightarrow> player list \<Rightarrow> groups \<Rightarrow> groups" where
  "set_grp k xs g =
     (case k of A \<Rightarrow> g\<lparr>grpA := xs\<rparr> | B \<Rightarrow> g\<lparr>grpB := xs\<rparr>
              | C \<Rightarrow> g\<lparr>grpC := xs\<rparr> | D \<Rightarrow> g\<lparr>grpD := xs\<rparr>)"

text \<open>\<^verbatim>\<open>xs.splice(i, 1)\<close> for an index that is not negative: nothing happens past the end.\<close>

definition splice1 :: "nat \<Rightarrow> 'a list \<Rightarrow> 'a list" where
  "splice1 i xs = take i xs @ drop (Suc i) xs"

text \<open>
  \<^verbatim>\<open>Math.floor(Math.random() * n)\<close>, where \<open>r\<close> is the number \<^verbatim>\<open>Math.random()\<close>
  returns: by its contract \<open>0 \<le> r < 1\<close>.
\<close>

definition random_index :: "rat \<Rightarrow> nat \<Rightarrow> nat" where
  "random_index r n = nat \<lfloor>r * of_nat n\<rfloor>"

definition calculateTeamHandicap :: "player option list \<Rightarrow> rat" where
  "calculateTeamHandicap ms =
     foldl (\<lambda>total m. case m of None \<Rightarrow> total | Some p \<Rightarrow> total + getNumericHandicap p) 0 ms"

text \<open>\<^verbatim>\<open>group[i]\<close>: \<^verbatim>\<open>undefined\<close> past the end.\<close>

definition elem_at :: "'a list \<Rightarrow> nat \<Rightarrow> 'a option" where
  "elem_at xs i = (if i < length xs then Some (xs ! i) else None)"

text \<open>\<open>selectTeam\<close>, with the four random numbers it draws, for the groups A, B, C, D in turn.\<close>

definition selectTeam :: "rat \<Rightarrow> rat \<Rightarrow> rat \<Rightarrow> rat \<Rightarrow> data \<Rightarrow> error + (team \<times> data)" where
  "selectTeam ra rb rc rd d =
     (if \<not> canFormTeam d then Inl NotEnoughPlayers
      else
        let g = groups d;
            ia = random_index ra (length (grpA g));
            ib = random_index rb (length (grpB g));
            ic = random_index rc (length (grpC g));
            idx = random_index rd (length (grpD g));
            ms = [elem_at (grpA g) ia, elem_at (grpB g) ib, elem_at (grpC g) ic, elem_at (grpD g) idx];
            newTeam = \<lparr>id = int (length (teams d)) + 1, members = ms,
                       totalHandicap = calculateTeamHandicap ms\<rparr>
        in Inr (newTeam,
                d\<lparr>teams := teams d @ [newTeam],
                  groups := \<lparr>grpA = splice1 ia (grpA g), grpB = splice1 ib (grpB g),
                             grpC = splice1 ic (grpC g), grpD = splice1 idx (grpD g)\<rparr>\<rparr>))"

section \<open>Hole assignment\<close>

definition teamsOn :: "(int \<times> int list) list \<Rightarrow> int \<Rightarrow> int list" where
  "teamsOn ha hole = (case map_of ha hole of None \<Rightarrow> [] | Some ts \<Rightarrow> ts)"

definition maxTeams :: "int \<Rightarrow> nat" where
  "maxTeams hole = (if hole \<in> set doubleStackedHoles then 2 else 1)"

text \<open>
  The failures are the returned \<^verbatim>\<open>{success: false}\<close> objects; the store is then as it
  was.  The text of the message (which names the hole the team is on) is not modelled.
\<close>

definition assignTeamToHole :: "int \<Rightarrow> int \<Rightarrow> data \<Rightarrow> error + data" where
  "assignTeamToHole teamId hole d =
     (if teamId = 0 \<or> hole = 0 \<or> hole < 1 \<or> hole > 18 then Inl InvalidInput
      else if teamId \<in> set (concat (map snd (holeAssignments d))) then Inl AlreadyAssigned
      else if length (teamsOn (holeAssignments d) hole) \<ge> maxTeams hole then Inl HoleFull
      else Inr (d\<lparr>holeAssignments :=
                    AList.update hole (teamsOn (holeAssignments d) hole @ [teamId])
                      (holeAssignments d)\<rparr>))"

definition removeTeamFromHole :: "int \<Rightarrow> int \<Rightarrow> data \<Rightarrow> error + data" where
  "removeTeamFromHole teamId hole d =
     (if teamId = 0 \<or> hole = 0 \<or> hole < 1 \<or> hole > 18 then Inl InvalidInput
      else
        (case map_of (holeAssignments d) hole of
           None \<Rightarrow> Inl NotOnHole
         | Some ts \<Rightarrow>
             if teamId \<notin> set ts then Inl NotOnHole
             else
               let filtered = filter (\<lambda>i. i \<noteq> teamId) ts;
                   ha = AList.update hole filtered (holeAssignments d)
               in Inr (d\<lparr>holeAssignments :=
                            (if length filtered = 0 then AList.delete hole ha else ha)\<rparr>)))"

definition getAssignedTeamIds :: "data \<Rightarrow> int list" where
  "getAssignedTeamIds d = remdups (concat (map snd (holeAssignments d)))"

definition getUnassignedTeamsInternal :: "data \<Rightarrow> team list" where
  "getUnassignedTeamsInternal d = filter (\<lambda>t. id t \<notin> set (getAssignedTeamIds d)) (teams d)"

text \<open>
  The two passes over the holes, shared by \<open>autoAssignTeams\<close> and
  \<open>randomizeTeamAssignments\<close> (the source repeats the two loops).  The state of a loop is
  the hole, the index of the next team and the store.
\<close>

function first_pass :: "int \<Rightarrow> team list \<Rightarrow> nat \<Rightarrow> data \<Rightarrow> nat \<times> data" where
  "first_pass hole teamsToAssign teamIndex d =
     (if hole \<le> 18 \<and> teamIndex < length teamsToAssign then
        (case assignTeamToHole (id (teamsToAssign ! teamIndex)) hole d of
           Inr d' \<Rightarrow> first_pass (hole + 1) teamsToAssign (Suc teamIndex) d'
         | Inl _ \<Rightarrow> first_pass (hole + 1) teamsToAssign teamIndex d)
      else (teamIndex, d))"
  by pat_completeness auto
termination
  by (relation "measure (\<lambda>(hole, ts, i, d). nat (19 - hole))") auto

function second_pass :: "int \<Rightarrow> team list \<Rightarrow> nat \<Rightarrow> data \<Rightarrow> nat \<times> data" where
  "second_pass hole teamsToAssign teamIndex d =
     (if hole \<le> 18 \<and> teamIndex < length teamsToAssign then
        (if hole \<in> set doubleStackedHoles \<and> length (teamsOn (holeAssignments d) hole) < 2 then
           (case assignTeamToHole (id (teamsToAssign ! teamIndex)) hole d of
              Inr d' \<Rightarrow> second_pass (hole + 1) teamsToAssign (Suc teamIndex) d'
            | Inl _ \<Rightarrow> second_pass (hole + 1) teamsToAssign teamIndex d)
         else second_pass (hole + 1) teamsToAssign teamIndex d)
      else (teamIndex, d))"
  by pat_completeness auto
termination
  by (relation "measure (\<lambda>(hole, ts, i, d). nat (19 - hole))") auto

definition two_passes :: "team list \<Rightarrow> data \<Rightarrow> nat \<times> data" where
  "two_passes teamsToAssign d =
     (case first_pass 1 teamsToAssign 0 d of
        (teamIndex, d1) \<Rightarrow> second_pass 1 teamsToAssign teamIndex d1)"

definition autoAssignTeams :: "data \<Rightarrow> data" where
  "autoAssignTeams d =
     (let d0 = d\<lparr>holeAssignments := []\<rparr>
      in snd (two_passes (getUnassignedTeamsInternal d0) d0))"

definition swap :: "nat \<Rightarrow> nat \<Rightarrow> 'a list \<Rightarrow> 'a list" where
  "swap i j xs = (xs[i := xs ! j])[j := xs ! i]"

text \<open>
  The Fisher-Yates loop, for \<open>i\<close> from \<open>length xs - 1\<close> down to 1.  \<open>rnd k\<close> is the
  number the \<open>k\<close>-th call of \<^verbatim>\<open>Math.random\<close> in the loop returns.
\<close>

fun shuffle_from :: "(nat \<Rightarrow> rat) \<Rightarrow> nat \<Rightarrow> nat \<Rightarrow> 'a list \<Rightarrow> 'a list" where
  "shuffle_from rnd 0 k xs = xs"
| "shuffle_from rnd (Suc i) k xs =
     shuffle_from rnd i (Suc k) (swap (Suc i) (random_index (rnd k) (Suc i + 1)) xs)"

definition shuffle :: "(nat \<Rightarrow> rat) \<Rightarrow> 'a list \<Rightarrow> 'a list" where
  "shuffle rnd xs = shuffle_from rnd (length xs - 1) 0 xs"

definition randomizeTeamAssignments :: "(nat \<Rightarrow> rat) \<Rightarrow> data \<Rightarrow> data" where
  "randomizeTeamAssignments rnd d =
     (let d0 = d\<lparr>holeAssignments := []\<rparr>
      in snd (two_passes (shuffle rnd (getUnassignedTeamsInternal d0)) d0))"


section \<open>CSV import\<close>





section \<open>The interactive draft\<close>

definition draftOrder :: "letter list" where
  "draftOrder = [D, C, B, A]"

definition initializeInteractiveDraft :: "data \<Rightarrow> error + data" where
  "initializeInteractiveDraft d =
     (let g = groups d;
          n = min (min (length (grpA g)) (length (grpB g))) (min (length (grpC g)) (length (grpD g)))
      in if n = 0 then Inl NotEnoughPlayers
         else
           let st0 = \<lparr>numTeams = n, currentTeamIndex = 0, currentRoundIndex = 0,
                      availableGroups = g,
                      draftedTeamsData =
                        replicate n \<lparr>dmembers = [None, None, None, None], partialHandicap = 0\<rparr>,
                      targetTeamHandicap = 0, avgPlayerHandicap = 0\<rparr>;
               st1 = (if balanceTeams (settings d) \<and> length (players d) > 0 then
                        let avg = foldl (\<lambda>total p. total + getNumericHandicap p) 0 (players d)
                                    / of_nat (length (players d))
                        in st0\<lparr>avgPlayerHandicap := avg, targetTeamHandicap := avg * 4\<rparr>
                      else st0);
               st2 = (if balanceTeams (settings d) \<and> length (teams d) > 0 then
                        st1\<lparr>targetTeamHandicap :=
                              foldl (\<lambda>total t. total + calculateTeamHandicap (members t)) 0 (teams d)
                                / of_nat (length (teams d))\<rparr>
                      else st1)
           in Inr (d\<lparr>interactiveDraftState := Some st2\<rparr>))"

text \<open>
  The value compared in the balancing loop for a candidate of round \<open>roundIndex\<close>:
  the distance of the predicted final handicap of the team from the target.
\<close>

definition difference :: "draft_state \<Rightarrow> rat \<Rightarrow> nat \<Rightarrow> player \<Rightarrow> rat" where
  "difference st currentPartialHandicap roundIndex potentialPlayer =
     (let remainingRounds = length draftOrder - (roundIndex + 1);
          predictedFinalHandicap =
            currentPartialHandicap + getNumericHandicap potentialPlayer
              + of_nat remainingRounds * avgPlayerHandicap st
      in \<bar>predictedFinalHandicap - targetTeamHandicap st\<bar>)"

text \<open>
  The balancing loop over the pool from index \<open>j\<close> on.  \<open>minDifference\<close> starts as
  \<^verbatim>\<open>Infinity\<close>, which is \<open>None\<close> here, and \<open>bestPlayerIdx\<close> as \<open>-1\<close>.
\<close>

fun best_scan :: "(player \<Rightarrow> rat) \<Rightarrow> player list \<Rightarrow> nat \<Rightarrow> rat option \<Rightarrow> int \<Rightarrow> int" where
  "best_scan f [] j minDifference bestPlayerIdx = bestPlayerIdx"
| "best_scan f (p # ps) j minDifference bestPlayerIdx =
     (if (case minDifference of None \<Rightarrow> True | Some m \<Rightarrow> f p < m)
      then best_scan f ps (Suc j) (Some (f p)) (int j)
      else best_scan f ps (Suc j) minDifference bestPlayerIdx)"

text \<open>
  The index of the chosen player in the pool, for the random number \<open>r\<close> that
  \<^verbatim>\<open>Math.random\<close> returns if it is called.
\<close>

definition chosenPlayerIndex :: "bool \<Rightarrow> draft_state \<Rightarrow> rat \<Rightarrow> nat" where
  "chosenPlayerIndex balance st r =
     (let roundIndex = currentRoundIndex st;
          groupLetter = draftOrder ! roundIndex;
          currentAvailableGroup = grp groupLetter (availableGroups st)
      in if balance \<and> groupLetter \<noteq> D then
           (let bestPlayerIdx =
                  best_scan
                    (difference st (partialHandicap (draftedTeamsData st ! currentTeamIndex st)) roundIndex)
                    currentAvailableGroup 0 None (- 1)
            in if bestPlayerIdx = - 1 then random_index r (length currentAvailableGroup)
               else nat bestPlayerIdx)
         else random_index r (length currentAvailableGroup))"

text \<open>
  One pick.  Reading \<^verbatim>\<open>draftOrder\<close> past its end or a team past \<^verbatim>\<open>draftedTeamsData\<close>
  gives \<^verbatim>\<open>undefined\<close>, whose property access throws: the result \<open>TypeError\<close>.  The
  result on success is the chosen player and the store.
\<close>

definition makeInteractiveDraftPick :: "rat \<Rightarrow> data \<Rightarrow> error + (player \<times> data)" where
  "makeInteractiveDraftPick r d =
     (case interactiveDraftState d of
        None \<Rightarrow> Inl DraftNotInitialized
      | Some st \<Rightarrow>
          let teamIndex = currentTeamIndex st;
              roundIndex = currentRoundIndex st
          in if roundIndex \<ge> length draftOrder then Inl TypeError
             else
               let groupLetter = draftOrder ! roundIndex;
                   currentAvailableGroup = grp groupLetter (availableGroups st)
               in if length currentAvailableGroup = 0 then Inl (EmptyPool groupLetter)
                  else if teamIndex \<ge> length (draftedTeamsData st) then Inl TypeError
                  else
                    let chosenIdx = chosenPlayerIndex (balanceTeams (settings d)) st r in
                    (case elem_at currentAvailableGroup chosenIdx of
                       None \<Rightarrow> Inl TypeError
                     | Some chosenPlayer \<Rightarrow>
                         let memberIndex = length draftOrder - 1 - roundIndex;
                             dt = draftedTeamsData st ! teamIndex;
                             dt' = dt\<lparr>dmembers := (dmembers dt)[memberIndex := Some chosenPlayer],
                                      partialHandicap :=
                                        partialHandicap dt + getNumericHandicap chosenPlayer\<rparr>;
                             nextTeam = currentTeamIndex st + 1;
                             st' = st\<lparr>draftedTeamsData := (draftedTeamsData st)[teamIndex := dt'],
                                      availableGroups :=
                                        set_grp groupLetter (splice1 chosenIdx currentAvailableGroup)
                                          (availableGroups st),
                                      currentTeamIndex :=
                                        (if nextTeam \<ge> numTeams st then 0 else nextTeam),
                                      currentRoundIndex :=
                                        (if nextTeam \<ge> numTeams st then roundIndex + 1
                                         else roundIndex)\<rparr>
                         in Inr (chosenPlayer, d\<lparr>interactiveDraftState := Some st'\<rparr>)))"

text \<open>
  Removing a drafted member from the live groups: the first group of A, B, C, D that
  holds the object loses its first occurrence.
\<close>

definition remove_from_groups :: "player \<Rightarrow> groups \<Rightarrow> groups" where
  "remove_from_groups p g =
     (case find (\<lambda>k. p \<in> set (grp k g)) [A, B, C, D] of
        None \<Rightarrow> g
      | Some groupKey \<Rightarrow> set_grp groupKey (remove1 p (grp groupKey g)) g)"

definition remove_member :: "player option \<Rightarrow> groups \<Rightarrow> groups" where
  "remove_member m g = (case m of None \<Rightarrow> g | Some p \<Rightarrow> remove_from_groups p g)"

text \<open>
  The loop of \<open>finalizeDraftedTeams\<close> over the drafted teams; its state is
  \<^verbatim>\<open>finalTeams\<close> and the live groups.  \<open>n\<close> is the number of teams in the store.
\<close>

fun finalize_loop :: "drafted list \<Rightarrow> nat \<Rightarrow> team list \<Rightarrow> groups \<Rightarrow> team list \<times> groups" where
  "finalize_loop [] n finalTeams g = (finalTeams, g)"
| "finalize_loop (dt # dts) n finalTeams g =
     (if list_all (\<lambda>m. m \<noteq> None) (dmembers dt) then
        finalize_loop dts n
          (finalTeams @
             [\<lparr>id = int n + int (length finalTeams) + 1, members = dmembers dt,
               totalHandicap = calculateTeamHandicap (dmembers dt)\<rparr>])
          (fold remove_member (dmembers dt) g)
      else finalize_loop dts n finalTeams g)"

text \<open>The result on success is \<^verbatim>\<open>teamsAdded\<close> and the store.\<close>

definition finalizeDraftedTeams :: "data \<Rightarrow> error + (nat \<times> data)" where
  "finalizeDraftedTeams d =
     (case interactiveDraftState d of
        None \<Rightarrow> Inl DraftNotComplete
      | Some st \<Rightarrow>
          if currentRoundIndex st < length draftOrder then Inl DraftNotComplete
          else
            (case finalize_loop (draftedTeamsData st) (length (teams d)) [] (groups d) of
               (finalTeams, g) \<Rightarrow>
                 Inr (length finalTeams,
                      d\<lparr>teams := teams d @ finalTeams, groups := g,
                        interactiveDraftState := None\<rparr>)))"


section \<open>The tee sheet\<close>



definition pad2 :: "nat \<Rightarrow> string" where
  "pad2 n = [char_of (48 + n div 10), char_of (48 + n mod 10)]"





section \<open>The initial store and the resets\<close>

definition initial_data :: data where
  "initial_data =
     \<lparr>players = [], groups = empty_groups, teams = [], holeAssignments = [],
      settings = \<lparr>balanceTeams = False, maxHandicapDiff = 5, startFormat = Sequential,
                  startTime = 480, timeInterval = 10\<rparr>,
      interactiveDraftState = None, nextOid = 0\<rparr>"

definition resetAll :: "data \<Rightarrow> data" where
  "resetAll d =
     d\<lparr>players := [], groups := empty_groups, teams := [], holeAssignments := [],
       interactiveDraftState := None\<rparr>"

definition setHoleAssignments :: "(int \<times> int list) list \<Rightarrow> data \<Rightarrow> data" where
  "setHoleAssignments assignments d = d\<lparr>holeAssignments := assignments\<rparr>"

section \<open>What the import promises for each line\<close>




definition lefts :: "('a + 'b) list \<Rightarrow> 'a list" where
  "lefts xs = concat (map (\<lambda>x. case x of Inl a \<Rightarrow> [a] | Inr _ \<Rightarrow> []) xs)"

definition rights :: "('a + 'b) list \<Rightarrow> 'b list" where
  "rights xs = concat (map (\<lambda>x. case x of Inl _ \<Rightarrow> [] | Inr b \<Rightarrow> [b]) xs)"

section \<open>Example stores\<close>

text \<open>The store after a call that returns either a failure or the changed store.\<close>

definition store_after :: "'e + data \<Rightarrow> data \<Rightarrow> data" where
  "store_after r d = (case r of Inl _ \<Rightarrow> d | Inr d' \<Rightarrow> d')"

definition after_addPlayer :: "string \<Rightarrow> string \<Rightarrow> data \<Rightarrow> data" where
  "after_addPlayer nm h d = store_after (map_sum (\<lambda>e. e) snd (addPlayer nm h d)) d"

text \<open>The registry of the four players Smith 10.5, Doe 5.0, Lee 20.0 and Ng +2.0, and the
  registry with a fifth player.\<close>

definition four_players :: data where
  "four_players =
     after_addPlayer ''Ng, Pat'' ''+2.0''
       (after_addPlayer ''Lee, Kim'' ''20.0''
          (after_addPlayer ''Doe, Jane'' ''5.0''
             (after_addPlayer ''Smith, John'' ''10.5'' initial_data)))"

definition five_players :: data where
  "five_players = after_addPlayer ''Kim, Lou'' ''15'' four_players"






section \<open>The states of the hole assignments\<close>

text \<open>
  The invariant of the hole assignments: the object has one entry for each key, no team
  id is in the lists of two holes, and the list of a hole is not longer than the
  capacity of the hole, 2 for a double-stacked hole and 1 for any other.
\<close>

definition assignments_ok :: "(int \<times> int list) list \<Rightarrow> bool" where
  "assignments_ok ha =
     (distinct (map fst ha)
      \<and> (\<forall>t h1 h2. t \<in> set (teamsOn ha h1) \<and> t \<in> set (teamsOn ha h2) \<longrightarrow> h1 = h2)
      \<and> (\<forall>h. length (teamsOn ha h)
               \<le> (if h \<in> set [3, 4, 6, 7, 8, 10, 12, 13, 16, 18] then 2 else 1)))"

text \<open>
  The stores the application reaches, as far as the hole assignments go: it starts
  without assignments (and \<open>resetAll\<close> and the reset of the assignments return
  there); the four operations of the scheduler change the assignments; every other
  operation leaves them as they are, whatever it does to the rest of the store.
\<close>

inductive hole_reachable :: "data \<Rightarrow> bool" where
  start: "holeAssignments d = [] \<Longrightarrow> hole_reachable d"
| other: "hole_reachable d \<Longrightarrow> holeAssignments d' = holeAssignments d \<Longrightarrow> hole_reachable d'"
| assign: "hole_reachable d \<Longrightarrow> assignTeamToHole teamId hole d = Inr d' \<Longrightarrow> hole_reachable d'"
| remove: "hole_reachable d \<Longrightarrow> removeTeamFromHole teamId hole d = Inr d' \<Longrightarrow> hole_reachable d'"
| auto: "hole_reachable d \<Longrightarrow> hole_reachable (autoAssignTeams d)"
| random: "hole_reachable d \<Longrightarrow> hole_reachable (randomizeTeamAssignments rnd d)"

definition after_assignTeamToHole :: "int \<Rightarrow> int \<Rightarrow> data \<Rightarrow> data" where
  "after_assignTeamToHole teamId hole d = store_after (assignTeamToHole teamId hole d) d"

definition after_removeTeamFromHole :: "int \<Rightarrow> int \<Rightarrow> data \<Rightarrow> data" where
  "after_removeTeamFromHole teamId hole d = store_after (removeTeamFromHole teamId hole d) d"

text \<open>Teams 1 and 2 assigned to hole 3.\<close>

definition two_on_hole_3 :: data where
  "two_on_hole_3 = after_assignTeamToHole 2 3 (after_assignTeamToHole 1 3 initial_data)"

section \<open>What the two passes promise\<close>

text \<open>
  The assignments the description of \<open>autoAssignTeams\<close> promises for the team ids
  \<open>ids\<close>, in the order of the teams.  Pass 1 gives hole \<open>k + 1\<close> the team of index
  \<open>k\<close>, for the first 18 teams.  Pass 2 gives the double-stacked holes, in the order of
  the holes, the teams from index 18 on: the hole with \<open>r\<close> double-stacked holes before
  it receives the team of index \<open>18 + r\<close>, if there is one.
\<close>

definition stack_rank :: "int \<Rightarrow> nat" where
  "stack_rank h = length (filter (\<lambda>y. y < h) doubleStackedHoles)"

definition second_slot :: "int list \<Rightarrow> int \<Rightarrow> int list" where
  "second_slot ids h =
     (if h \<in> set doubleStackedHoles \<and> 18 + stack_rank h < length ids
      then [ids ! (18 + stack_rank h)] else [])"

definition two_pass_layout :: "int list \<Rightarrow> (int \<times> int list) list" where
  "two_pass_layout ids =
     map (\<lambda>k. (int k + 1, ids ! k # second_slot ids (int k + 1))) [0..<min (length ids) 18]"

text \<open>The assignments when pass 2 has gone through the first \<open>j\<close> holes (18 teams or more).\<close>

definition partial_layout :: "int list \<Rightarrow> nat \<Rightarrow> (int \<times> int list) list" where
  "partial_layout ids j =
     map (\<lambda>k. (int k + 1, ids ! k # (if k < j then second_slot ids (int k + 1) else [])))
       [0..<18]"

text \<open>A store with the teams 1 to 20 (their members do not matter for the holes).\<close>

definition twenty_teams :: data where
  "twenty_teams =
     initial_data\<lparr>teams := map (\<lambda>k. \<lparr>id = int k + 1, members = [], totalHandicap = 0\<rparr>) [0..<20]\<rparr>"

section \<open>What the tee sheet promises\<close>







section \<open>The player registry: validation\<close>










section \<open>CSV import\<close>


lemma lefts_append [simp]: "lefts (xs @ ys) = lefts xs @ lefts ys"
  by (simp add: lefts_def)

lemma rights_append [simp]: "rights (xs @ ys) = rights xs @ rights ys"
  by (simp add: rights_def)













section \<open>Grouping\<close>


lemma quarter_eq: "quarter n = (n + 3) div 4"
proof -
  have "\<lceil>(of_nat n :: rat) / 4\<rceil> = \<lceil>(of_int (int n) :: rat) / of_int 4\<rceil>" by simp
  also have "\<dots> = - (- int n div 4)" by (rule ceiling_divide_eq_div)
  also have "\<dots> = int ((n + 3) div 4)" by linarith
  finally show ?thesis by (simp add: quarter_def)
qed

lemma quarter_bounds: "4 * quarter n \<le> n + 3 \<and> n \<le> 4 * quarter n"
  unfolding quarter_eq by linarith

lemma quarter_small: "4 \<le> n \<Longrightarrow> n \<le> 3 * quarter n \<Longrightarrow> n \<le> 9"
  using quarter_bounds [of n] by linarith

lemma quarter_cases: "4 \<le> n \<and> n \<le> 3 * quarter n \<longleftrightarrow> n \<in> {5, 6, 9}"
proof
  assume a: "4 \<le> n \<and> n \<le> 3 * quarter n"
  then have "n \<le> 9" by (simp add: quarter_small)
  with a have "n = 4 \<or> n = 5 \<or> n = 6 \<or> n = 7 \<or> n = 8 \<or> n = 9" by linarith
  with a show "n \<in> {5, 6, 9}" by (auto simp: quarter_eq)
next
  assume "n \<in> {5, 6, 9}"
  then show "4 \<le> n \<and> n \<le> 3 * quarter n" by (auto simp: quarter_eq)
qed

lemma four_slices:
  "slice 0 q s @ slice q (q * 2) s @ slice (q * 2) (q * 3) s @ slice_from (q * 3) s = s"
proof -
  have a: "take q (drop q s) @ drop (q * 2) s = drop q s"
    by (metis append_take_drop_id drop_drop mult_2_right)
  have b: "take q (drop (q * 2) s) @ drop (q * 3) s = drop (q * 2) s"
  proof -
    have "q * 3 = q + q * 2" by simp
    then show ?thesis by (metis append_take_drop_id drop_drop)
  qed
  show ?thesis by (simp add: slice_def slice_from_def a b)
qed

lemma groupPlayers_fail: "length (players d) < 4 \<Longrightarrow> groupPlayers d = Inl InsufficientPlayers"
  by (simp add: groupPlayers_def)

lemma groupPlayers_Inr:
  assumes "groupPlayers d = Inr d'"
  shows "4 \<le> length (players d)"
    and "groups d' =
           (let s = sort_key getNumericHandicap (players d); q = quarter (length (players d))
            in \<lparr>grpA = slice 0 q s, grpB = slice q (q * 2) s,
                grpC = slice (q * 2) (q * 3) s, grpD = slice_from (q * 3) s\<rparr>)"
    and "interactiveDraftState d' = None" and "teams d' = teams d" and "players d' = players d"
    and "holeAssignments d' = holeAssignments d" and "settings d' = settings d"
    and "nextOid d' = nextOid d"
  using assms by (auto simp: groupPlayers_def Let_def split: if_splits)

lemma groupPlayers_ok: "4 \<le> length (players d) \<Longrightarrow> \<exists>d'. groupPlayers d = Inr d'"
  by (simp add: groupPlayers_def Let_def)

lemma grouped_concat:
  assumes "groupPlayers d = Inr d'"
  shows "grpA (groups d') @ grpB (groups d') @ grpC (groups d') @ grpD (groups d')
           = sort_key getNumericHandicap (players d)"
  by (simp add: groupPlayers_Inr(2) [OF assms] Let_def four_slices)

lemma grouped_lengths:
  assumes "groupPlayers d = Inr d'"
  shows "length (grpA (groups d')) = quarter (length (players d))"
    and "length (grpB (groups d')) =
           min (quarter (length (players d))) (length (players d) - quarter (length (players d)))"
    and "length (grpC (groups d')) =
           min (quarter (length (players d))) (length (players d) - 2 * quarter (length (players d)))"
    and "length (grpD (groups d')) = length (players d) - 3 * quarter (length (players d))"
proof -
  from groupPlayers_Inr(1) [OF assms] quarter_bounds [of "length (players d)"]
  have "quarter (length (players d)) \<le> length (players d)" by linarith
  then show "length (grpA (groups d')) = quarter (length (players d))"
    by (simp add: groupPlayers_Inr(2) [OF assms] Let_def slice_def)
  show "length (grpB (groups d')) =
           min (quarter (length (players d))) (length (players d) - quarter (length (players d)))"
    by (simp add: groupPlayers_Inr(2) [OF assms] Let_def slice_def min_def)
  show "length (grpC (groups d')) =
           min (quarter (length (players d))) (length (players d) - 2 * quarter (length (players d)))"
    by (simp add: groupPlayers_Inr(2) [OF assms] Let_def slice_def min_def mult.commute)
  show "length (grpD (groups d')) = length (players d) - 3 * quarter (length (players d))"
    by (simp add: groupPlayers_Inr(2) [OF assms] Let_def slice_from_def mult.commute)
qed

lemma sorted_first_last:
  assumes "sorted (map f (xs @ ys @ zs @ ws))" "a \<in> set xs" "x \<in> set ws"
  shows "f a \<le> f x"
proof -
  from assms(1) have "sorted (map f xs @ map f (ys @ zs @ ws))" by simp
  then have "\<forall>u \<in> set (map f xs). \<forall>v \<in> set (map f (ys @ zs @ ws)). u \<le> v"
    using sorted_append [of "map f xs" "map f (ys @ zs @ ws)"] by blast
  with assms(2,3) show ?thesis by simp
qed

lemma grouped_A_le_D:
  assumes "groupPlayers d = Inr d'" "a \<in> set (grpA (groups d'))" "x \<in> set (grpD (groups d'))"
  shows "getNumericHandicap a \<le> getNumericHandicap x"
proof -
  have "sorted (map getNumericHandicap (grpA (groups d') @ grpB (groups d')
          @ grpC (groups d') @ grpD (groups d')))"
    by (simp only: grouped_concat [OF assms(1)] sorted_sort_key)
  from sorted_first_last [OF this assms(2,3)] show ?thesis .
qed


text \<open>
  Claim C4.  \<open>groupPlayers\<close> fails, and so leaves the groups as they are, when the
  registry has fewer than 4 players.  With \<open>N \<ge> 4\<close> players it succeeds; the four groups
  A, B, C, D are, in this order, contiguous slices of the registry sorted by effective
  handicap ascending with ties in registry order: A has \<open>ceil(N/4)\<close> players, B and C
  have as many or what is left, D has the remainder; the four sizes sum to \<open>N\<close>, and
  every player of A has an effective handicap at most that of every player of D.
\<close>

theorem groupPlayers_partition:
  "(length (players d) < 4 \<longrightarrow> groupPlayers d = Inl InsufficientPlayers)
   \<and> (4 \<le> length (players d) \<longrightarrow>
        (\<exists>d'. groupPlayers d = Inr d'
           \<and> grpA (groups d') @ grpB (groups d') @ grpC (groups d') @ grpD (groups d')
               = sort_key getNumericHandicap (players d)
           \<and> sorted (map getNumericHandicap (sort_key getNumericHandicap (players d)))
           \<and> mset (sort_key getNumericHandicap (players d)) = mset (players d)
           \<and> (\<forall>k. filter (\<lambda>p. getNumericHandicap p = k) (sort_key getNumericHandicap (players d))
                    = filter (\<lambda>p. getNumericHandicap p = k) (players d))
           \<and> int (quarter (length (players d))) = \<lceil>(of_nat (length (players d)) :: rat) / 4\<rceil>
           \<and> length (grpA (groups d')) = quarter (length (players d))
           \<and> length (grpB (groups d')) =
               min (quarter (length (players d))) (length (players d) - quarter (length (players d)))
           \<and> length (grpC (groups d')) =
               min (quarter (length (players d)))
                 (length (players d) - 2 * quarter (length (players d)))
           \<and> length (grpD (groups d')) = length (players d) - 3 * quarter (length (players d))
           \<and> length (grpA (groups d')) + length (grpB (groups d')) + length (grpC (groups d'))
                + length (grpD (groups d')) = length (players d)
           \<and> (\<forall>a \<in> set (grpA (groups d')). \<forall>x \<in> set (grpD (groups d')).
                 getNumericHandicap a \<le> getNumericHandicap x)))"
proof (rule conjI; rule impI)
  assume "length (players d) < 4"
  then show "groupPlayers d = Inl InsufficientPlayers" by (rule groupPlayers_fail)
next
  assume "4 \<le> length (players d)"
  then obtain d' where g: "groupPlayers d = Inr d'" using groupPlayers_ok by blast
  have "length (grpA (groups d') @ grpB (groups d') @ grpC (groups d') @ grpD (groups d'))
          = length (players d)"
    by (simp only: grouped_concat [OF g] length_sort)
  then have sum: "length (grpA (groups d')) + length (grpB (groups d')) + length (grpC (groups d'))
                + length (grpD (groups d')) = length (players d)"
    by simp
  have q: "int (quarter (length (players d))) = \<lceil>(of_nat (length (players d)) :: rat) / 4\<rceil>"
    by (simp add: quarter_def)
  from g grouped_concat [OF g] grouped_lengths [OF g] sum q grouped_A_le_D [OF g]
  show "\<exists>d'. groupPlayers d = Inr d'
           \<and> grpA (groups d') @ grpB (groups d') @ grpC (groups d') @ grpD (groups d')
               = sort_key getNumericHandicap (players d)
           \<and> sorted (map getNumericHandicap (sort_key getNumericHandicap (players d)))
           \<and> mset (sort_key getNumericHandicap (players d)) = mset (players d)
           \<and> (\<forall>k. filter (\<lambda>p. getNumericHandicap p = k) (sort_key getNumericHandicap (players d))
                    = filter (\<lambda>p. getNumericHandicap p = k) (players d))
           \<and> int (quarter (length (players d))) = \<lceil>(of_nat (length (players d)) :: rat) / 4\<rceil>
           \<and> length (grpA (groups d')) = quarter (length (players d))
           \<and> length (grpB (groups d')) =
               min (quarter (length (players d))) (length (players d) - quarter (length (players d)))
           \<and> length (grpC (groups d')) =
               min (quarter (length (players d)))
                 (length (players d) - 2 * quarter (length (players d)))
           \<and> length (grpD (groups d')) = length (players d) - 3 * quarter (length (players d))
           \<and> length (grpA (groups d')) + length (grpB (groups d')) + length (grpC (groups d'))
                + length (grpD (groups d')) = length (players d)
           \<and> (\<forall>a \<in> set (grpA (groups d')). \<forall>x \<in> set (grpD (groups d')).
                 getNumericHandicap a \<le> getNumericHandicap x)"
    by (intro exI [of _ d'] conjI ballI allI) (simp_all add: sort_key_stable)
qed

lemma four_players_eq:
  "four_players =
     initial_data\<lparr>players :=
       [\<lparr>oid = 0, name = ''Smith, John'', handicap = 21 / 2, isPlus = False\<rparr>,
        \<lparr>oid = 1, name = ''Doe, Jane'', handicap = 5, isPlus = False\<rparr>,
        \<lparr>oid = 2, name = ''Lee, Kim'', handicap = 20, isPlus = False\<rparr>,
        \<lparr>oid = 3, name = ''Ng, Pat'', handicap = 2, isPlus = True\<rparr>], nextOid := 4\<rparr>"
  by code_simp

lemma four_players_grouped:
  "groupPlayers four_players =
     Inr (four_players\<lparr>groups :=
            \<lparr>grpA = [\<lparr>oid = 3, name = ''Ng, Pat'', handicap = 2, isPlus = True\<rparr>],
             grpB = [\<lparr>oid = 1, name = ''Doe, Jane'', handicap = 5, isPlus = False\<rparr>],
             grpC = [\<lparr>oid = 0, name = ''Smith, John'', handicap = 21 / 2, isPlus = False\<rparr>],
             grpD = [\<lparr>oid = 2, name = ''Lee, Kim'', handicap = 20, isPlus = False\<rparr>]\<rparr>\<rparr>)"
  by code_simp

theorem groupPlayers_partition_witness:
  "length (players initial_data) < 4 \<and> groupPlayers initial_data = Inl InsufficientPlayers
   \<and> 4 \<le> length (players four_players)
   \<and> groupPlayers four_players =
       Inr (four_players\<lparr>groups :=
            \<lparr>grpA = [\<lparr>oid = 3, name = ''Ng, Pat'', handicap = 2, isPlus = True\<rparr>],
             grpB = [\<lparr>oid = 1, name = ''Doe, Jane'', handicap = 5, isPlus = False\<rparr>],
             grpC = [\<lparr>oid = 0, name = ''Smith, John'', handicap = 21 / 2, isPlus = False\<rparr>],
             grpD = [\<lparr>oid = 2, name = ''Lee, Kim'', handicap = 20, isPlus = False\<rparr>]\<rparr>\<rparr>)
   \<and> getNumericHandicap \<lparr>oid = 3, name = ''Ng, Pat'', handicap = 2, isPlus = True\<rparr>
       \<le> getNumericHandicap \<lparr>oid = 2, name = ''Lee, Kim'', handicap = 20, isPlus = False\<rparr>"
proof -
  have a: "length (players initial_data) < 4" by (simp add: initial_data_def)
  have b: "4 \<le> length (players four_players)" by (simp add: four_players_eq)
  from a groupPlayers_partition [of initial_data]
  have c: "groupPlayers initial_data = Inl InsufficientPlayers" by blast
  from b groupPlayers_partition [of four_players] four_players_grouped
  have "getNumericHandicap \<lparr>oid = 3, name = ''Ng, Pat'', handicap = 2, isPlus = True\<rparr>
       \<le> getNumericHandicap \<lparr>oid = 2, name = ''Lee, Kim'', handicap = 20, isPlus = False\<rparr>"
    by simp
  with a b c four_players_grouped show ?thesis by blast
qed






text \<open>
  Claim C10.  The registries of \<open>N \<ge> 4\<close> players with \<open>N \<le> 3 * ceil(N/4)\<close> are
  those with 5, 6 or 9 players.  For each of them \<open>groupPlayers\<close> succeeds and leaves
  group D empty, \<open>canFormTeam\<close> is then false, and neither \<open>selectTeam\<close> nor the start
  of a draft forms a team.
\<close>

theorem groupPlayers_empty_group_D:
  "(4 \<le> length (players d) \<and> length (players d) \<le> 3 * quarter (length (players d))
      \<longleftrightarrow> length (players d) \<in> {5, 6, 9})
   \<and> (4 \<le> length (players d) \<and> length (players d) \<le> 3 * quarter (length (players d)) \<longrightarrow>
        (\<exists>d'. groupPlayers d = Inr d' \<and> grpD (groups d') = [] \<and> \<not> canFormTeam d'
           \<and> selectTeam ra rb rc rd d' = Inl NotEnoughPlayers
           \<and> initializeInteractiveDraft d' = Inl NotEnoughPlayers))"
proof (rule conjI)
  show "4 \<le> length (players d) \<and> length (players d) \<le> 3 * quarter (length (players d))
      \<longleftrightarrow> length (players d) \<in> {5, 6, 9}"
    by (rule quarter_cases)
  show "4 \<le> length (players d) \<and> length (players d) \<le> 3 * quarter (length (players d)) \<longrightarrow>
        (\<exists>d'. groupPlayers d = Inr d' \<and> grpD (groups d') = [] \<and> \<not> canFormTeam d'
           \<and> selectTeam ra rb rc rd d' = Inl NotEnoughPlayers
           \<and> initializeInteractiveDraft d' = Inl NotEnoughPlayers)"
  proof
    assume a: "4 \<le> length (players d) \<and> length (players d) \<le> 3 * quarter (length (players d))"
    then obtain d' where g: "groupPlayers d = Inr d'" using groupPlayers_ok by blast
    from a grouped_lengths(4) [OF g] have e: "grpD (groups d') = []" by simp
    then have c: "\<not> canFormTeam d'" by (simp add: canFormTeam_def)
    then have s: "selectTeam ra rb rc rd d' = Inl NotEnoughPlayers" by (simp add: selectTeam_def)
    from e have "initializeInteractiveDraft d' = Inl NotEnoughPlayers"
      by (simp add: initializeInteractiveDraft_def Let_def)
    with g e c s show "\<exists>d'. groupPlayers d = Inr d' \<and> grpD (groups d') = [] \<and> \<not> canFormTeam d'
           \<and> selectTeam ra rb rc rd d' = Inl NotEnoughPlayers
           \<and> initializeInteractiveDraft d' = Inl NotEnoughPlayers"
      by blast
  qed
qed

lemma five_players_facts:
  "length (players five_players) = 5"
  "map name (grpC (groups (projr (groupPlayers five_players)))) = [''Lee, Kim'']"
  by code_simp+

theorem groupPlayers_empty_group_D_witness:
  "4 \<le> length (players five_players)
   \<and> length (players five_players) \<le> 3 * quarter (length (players five_players))
   \<and> (\<exists>d'. groupPlayers five_players = Inr d' \<and> grpD (groups d') = [] \<and> \<not> canFormTeam d'
          \<and> selectTeam 0 0 0 0 d' = Inl NotEnoughPlayers
          \<and> initializeInteractiveDraft d' = Inl NotEnoughPlayers)"
proof -
  have a: "4 \<le> length (players five_players)
           \<and> length (players five_players) \<le> 3 * quarter (length (players five_players))"
    by (simp add: five_players_facts(1) quarter_eq)
  with groupPlayers_empty_group_D [of five_players 0 0 0 0] show ?thesis by blast
qed

section \<open>Hole assignment: the invariant\<close>


lemma teamsOn_update:
  "teamsOn (AList.update k v ha) h = (if h = k then v else teamsOn ha h)"
  by (simp add: teamsOn_def update_conv')

lemma teamsOn_delete:
  "teamsOn (AList.delete k ha) h = (if h = k then [] else teamsOn ha h)"
  by (simp add: teamsOn_def delete_conv')

lemma teamsOn_Nil [simp]: "teamsOn [] h = []"
  by (simp add: teamsOn_def)

lemma teamsOn_in_concat: "t \<in> set (teamsOn ha h) \<Longrightarrow> t \<in> set (concat (map snd ha))"
proof -
  assume t: "t \<in> set (teamsOn ha h)"
  then obtain ts where m: "map_of ha h = Some ts" and "t \<in> set ts"
    by (cases "map_of ha h") (auto simp: teamsOn_def)
  moreover from m have "(h, ts) \<in> set ha" by (rule map_of_SomeD)
  ultimately show ?thesis by force
qed

lemma in_concat_teamsOn:
  assumes "distinct (map fst ha)" "t \<in> set (concat (map snd ha))"
  shows "\<exists>h. t \<in> set (teamsOn ha h)"
proof -
  from assms(2) obtain h ts where e: "(h, ts) \<in> set ha" and t: "t \<in> set ts" by auto
  from assms(1) e have "map_of ha h = Some ts" by simp
  with t have "t \<in> set (teamsOn ha h)" by (simp add: teamsOn_def)
  then show ?thesis ..
qed

lemma maxTeams_eq:
  "maxTeams h = (if h \<in> set [3, 4, 6, 7, 8, 10, 12, 13, 16, 18] then 2 else 1)"
  by (simp add: maxTeams_def doubleStackedHoles_def)

lemma assignTeamToHole_Inr:
  assumes "assignTeamToHole t h d = Inr d'"
  shows "t \<noteq> 0" "1 \<le> h" "h \<le> 18" "t \<notin> set (concat (map snd (holeAssignments d)))"
    "length (teamsOn (holeAssignments d) h) < maxTeams h"
    "d' = d\<lparr>holeAssignments :=
              AList.update h (teamsOn (holeAssignments d) h @ [t]) (holeAssignments d)\<rparr>"
  using assms by (auto simp: assignTeamToHole_def split: if_splits)

lemma assignTeamToHole_ok:
  assumes ok: "assignments_ok (holeAssignments d)" and a: "assignTeamToHole t h d = Inr d'"
  shows "assignments_ok (holeAssignments d')"
proof -
  let ?ha = "holeAssignments d"
  note f = assignTeamToHole_Inr [OF a]
  from ok have dk: "distinct (map fst ?ha)"
    and once: "\<And>t h1 h2. t \<in> set (teamsOn ?ha h1) \<Longrightarrow> t \<in> set (teamsOn ?ha h2) \<Longrightarrow> h1 = h2"
    and cap: "\<And>h. length (teamsOn ?ha h) \<le> maxTeams h"
    by (auto simp: assignments_ok_def maxTeams_eq)
  from f(4) have new: "\<And>k. t \<notin> set (teamsOn ?ha k)" using teamsOn_in_concat by blast
  have ha': "holeAssignments d' = AList.update h (teamsOn ?ha h @ [t]) ?ha"
    by (simp add: f(6))
  have 1: "distinct (map fst (holeAssignments d'))"
    by (simp add: ha' distinct_update dk)
  have 2: "\<forall>u h1 h2. u \<in> set (teamsOn (holeAssignments d') h1)
             \<and> u \<in> set (teamsOn (holeAssignments d') h2) \<longrightarrow> h1 = h2"
    using once new by (auto simp: ha' teamsOn_update split: if_splits)
  have 3: "\<forall>k. length (teamsOn (holeAssignments d') k) \<le> maxTeams k"
    using cap f(5) by (auto simp: ha' teamsOn_update)
  from 1 2 3 show ?thesis by (simp add: assignments_ok_def maxTeams_eq)
qed

lemma removeTeamFromHole_ok:
  assumes ok: "assignments_ok (holeAssignments d)" and a: "removeTeamFromHole t h d = Inr d'"
  shows "assignments_ok (holeAssignments d')"
proof -
  let ?ha = "holeAssignments d"
  from ok have dk: "distinct (map fst ?ha)"
    and once: "\<And>t h1 h2. t \<in> set (teamsOn ?ha h1) \<Longrightarrow> t \<in> set (teamsOn ?ha h2) \<Longrightarrow> h1 = h2"
    and cap: "\<And>h. length (teamsOn ?ha h) \<le> maxTeams h"
    by (auto simp: assignments_ok_def maxTeams_eq)
  from a obtain ts where ts: "map_of ?ha h = Some ts"
    and ha': "holeAssignments d' =
        (if filter (\<lambda>i. i \<noteq> t) ts = [] then AList.delete h (AList.update h (filter (\<lambda>i. i \<noteq> t) ts) ?ha)
         else AList.update h (filter (\<lambda>i. i \<noteq> t) ts) ?ha)"
    by (auto simp: removeTeamFromHole_def Let_def split: if_splits option.splits)
  from ts have on: "teamsOn ?ha h = ts" by (simp add: teamsOn_def)
  have look: "\<And>k. teamsOn (holeAssignments d') k =
      (if k = h then filter (\<lambda>i. i \<noteq> t) ts else teamsOn ?ha k)"
    by (simp add: ha' teamsOn_update teamsOn_delete)
  have 1: "distinct (map fst (holeAssignments d'))"
    by (simp add: ha' distinct_update distinct_delete dk)
  have 2: "\<forall>u h1 h2. u \<in> set (teamsOn (holeAssignments d') h1)
             \<and> u \<in> set (teamsOn (holeAssignments d') h2) \<longrightarrow> h1 = h2"
    using once on by (auto simp: look split: if_splits)
  have "\<And>k. length (teamsOn (holeAssignments d') k) \<le> length (teamsOn ?ha k)"
    using on by (simp add: look)
  with cap have 3: "\<forall>k. length (teamsOn (holeAssignments d') k) \<le> maxTeams k"
    using le_trans by blast
  from 1 2 3 show ?thesis by (simp add: assignments_ok_def maxTeams_eq)
qed

lemma assignments_ok_Nil: "assignments_ok []"
  by (simp add: assignments_ok_def)

declare first_pass.simps [simp del] second_pass.simps [simp del]

lemma first_pass_stop:
  "\<not> (hole \<le> 18 \<and> i < length ts) \<Longrightarrow> first_pass hole ts i d = (i, d)"
  by (auto simp: first_pass.simps [of hole ts i d])

lemma first_pass_Inr:
  "hole \<le> 18 \<Longrightarrow> i < length ts \<Longrightarrow> assignTeamToHole (id (ts ! i)) hole d = Inr d' \<Longrightarrow>
     first_pass hole ts i d = first_pass (hole + 1) ts (Suc i) d'"
  by (simp add: first_pass.simps [of hole ts i d])

lemma first_pass_Inl:
  "hole \<le> 18 \<Longrightarrow> i < length ts \<Longrightarrow> assignTeamToHole (id (ts ! i)) hole d = Inl e \<Longrightarrow>
     first_pass hole ts i d = first_pass (hole + 1) ts i d"
  by (simp add: first_pass.simps [of hole ts i d])

lemma second_pass_stop:
  "\<not> (hole \<le> 18 \<and> i < length ts) \<Longrightarrow> second_pass hole ts i d = (i, d)"
  by (auto simp: second_pass.simps [of hole ts i d])

lemma second_pass_skip:
  "hole \<le> 18 \<Longrightarrow> i < length ts \<Longrightarrow>
   \<not> (hole \<in> set doubleStackedHoles \<and> length (teamsOn (holeAssignments d) hole) < 2) \<Longrightarrow>
     second_pass hole ts i d = second_pass (hole + 1) ts i d"
  by (auto simp: second_pass.simps [of hole ts i d])

lemma second_pass_Inr:
  "hole \<le> 18 \<Longrightarrow> i < length ts \<Longrightarrow> hole \<in> set doubleStackedHoles \<Longrightarrow>
   length (teamsOn (holeAssignments d) hole) < 2 \<Longrightarrow>
   assignTeamToHole (id (ts ! i)) hole d = Inr d' \<Longrightarrow>
     second_pass hole ts i d = second_pass (hole + 1) ts (Suc i) d'"
  by (simp add: second_pass.simps [of hole ts i d])

lemma second_pass_Inl:
  "hole \<le> 18 \<Longrightarrow> i < length ts \<Longrightarrow> hole \<in> set doubleStackedHoles \<Longrightarrow>
   length (teamsOn (holeAssignments d) hole) < 2 \<Longrightarrow>
   assignTeamToHole (id (ts ! i)) hole d = Inl e \<Longrightarrow>
     second_pass hole ts i d = second_pass (hole + 1) ts i d"
  by (simp add: second_pass.simps [of hole ts i d])

lemma first_pass_ok:
  "assignments_ok (holeAssignments d) \<Longrightarrow>
     assignments_ok (holeAssignments (snd (first_pass hole ts i d)))"
proof (induction hole ts i d rule: first_pass.induct)
  case (1 hole ts i d)
  show ?case
  proof (cases "hole \<le> 18 \<and> i < length ts")
    case False
    then show ?thesis using "1.prems" by (simp add: first_pass_stop)
  next
    case True
    show ?thesis
    proof (cases "assignTeamToHole (id (ts ! i)) hole d")
      case (Inl e)
      with True "1.IH" "1.prems" show ?thesis by (simp add: first_pass_Inl)
    next
      case (Inr d')
      with "1.prems" have "assignments_ok (holeAssignments d')" by (simp add: assignTeamToHole_ok)
      with True Inr "1.IH" show ?thesis by (simp add: first_pass_Inr)
    qed
  qed
qed

lemma second_pass_ok:
  "assignments_ok (holeAssignments d) \<Longrightarrow>
     assignments_ok (holeAssignments (snd (second_pass hole ts i d)))"
proof (induction hole ts i d rule: second_pass.induct)
  case (1 hole ts i d)
  show ?case
  proof (cases "hole \<le> 18 \<and> i < length ts")
    case False
    then show ?thesis using "1.prems" by (simp add: second_pass_stop)
  next
    case True
    show ?thesis
    proof (cases "hole \<in> set doubleStackedHoles \<and> length (teamsOn (holeAssignments d) hole) < 2")
      case False
      with True have "second_pass hole ts i d = second_pass (hole + 1) ts i d"
        by (simp add: second_pass_skip)
      with True False "1.IH"(3) "1.prems" show ?thesis by auto
    next
      case free: True
      show ?thesis
      proof (cases "assignTeamToHole (id (ts ! i)) hole d")
        case (Inl e)
        with True free have "second_pass hole ts i d = second_pass (hole + 1) ts i d"
          by (simp add: second_pass_Inl)
        with True free Inl "1.IH" "1.prems" show ?thesis by auto
      next
        case (Inr d')
        with "1.prems" have "assignments_ok (holeAssignments d')" by (simp add: assignTeamToHole_ok)
        moreover from True free Inr
        have "second_pass hole ts i d = second_pass (hole + 1) ts (Suc i) d'"
          by (simp add: second_pass_Inr)
        ultimately show ?thesis using True free Inr "1.IH" by auto
      qed
    qed
  qed
qed

lemma two_passes_ok:
  "assignments_ok (holeAssignments d) \<Longrightarrow> assignments_ok (holeAssignments (snd (two_passes ts d)))"
proof -
  assume ok: "assignments_ok (holeAssignments d)"
  obtain i d1 where f: "first_pass 1 ts 0 d = (i, d1)" by (cases "first_pass 1 ts 0 d")
  with first_pass_ok [OF ok, of 1 ts 0] have "assignments_ok (holeAssignments d1)" by simp
  from second_pass_ok [OF this, of 1 ts i] f show ?thesis by (simp add: two_passes_def)
qed

lemma autoAssignTeams_ok: "assignments_ok (holeAssignments (autoAssignTeams d))"
  by (simp add: autoAssignTeams_def Let_def two_passes_ok assignments_ok_Nil)

lemma randomizeTeamAssignments_ok: "assignments_ok (holeAssignments (randomizeTeamAssignments rnd d))"
  by (simp add: randomizeTeamAssignments_def Let_def two_passes_ok assignments_ok_Nil)

lemma hole_reachable_ok: "hole_reachable d \<Longrightarrow> assignments_ok (holeAssignments d)"
proof (induction rule: hole_reachable.induct)
  case (start d)
  then show ?case by (simp add: assignments_ok_Nil)
next
  case (other d d')
  then show ?case by simp
next
  case (assign d teamId hole d')
  then show ?case by (simp add: assignTeamToHole_ok)
next
  case (remove d teamId hole d')
  then show ?case by (simp add: removeTeamFromHole_ok)
next
  case (auto d)
  show ?case by (rule autoAssignTeams_ok)
next
  case (random d rnd)
  show ?case by (rule randomizeTeamAssignments_ok)
qed


lemma hole_reachable_after_assign:
  "hole_reachable d \<Longrightarrow> hole_reachable (after_assignTeamToHole t h d)"
  by (cases "assignTeamToHole t h d")
     (auto simp: after_assignTeamToHole_def store_after_def intro: hole_reachable.assign)

lemma after_assign_ok:
  "assignments_ok (holeAssignments d) \<Longrightarrow>
     assignments_ok (holeAssignments (after_assignTeamToHole t h d))"
  by (cases "assignTeamToHole t h d")
     (auto simp: after_assignTeamToHole_def store_after_def intro: assignTeamToHole_ok)

lemma after_remove_ok:
  "assignments_ok (holeAssignments d) \<Longrightarrow>
     assignments_ok (holeAssignments (after_removeTeamFromHole t h d))"
  by (cases "removeTeamFromHole t h d")
     (auto simp: after_removeTeamFromHole_def store_after_def intro: removeTeamFromHole_ok)

text \<open>
  Claim C1.  In every store that is reached from one without assignments by the
  operations of the application, no team id is in the lists of two holes, the list of a
  double-stacked hole (3, 4, 6, 7, 8, 10, 12, 13, 16, 18) has at most 2 team ids and the
  list of any other hole at most 1.  The invariant \<open>assignments_ok\<close>, which says this,
  is preserved by \<open>assignTeamToHole\<close> and \<open>removeTeamFromHole\<close>, whether they succeed
  or fail, and it holds after \<open>autoAssignTeams\<close> and \<open>randomizeTeamAssignments\<close>.
\<close>

theorem hole_assignments_invariant:
  "(hole_reachable d \<longrightarrow>
      (\<forall>t h1 h2. t \<in> set (teamsOn (holeAssignments d) h1)
                 \<and> t \<in> set (teamsOn (holeAssignments d) h2) \<longrightarrow> h1 = h2)
      \<and> (\<forall>h. length (teamsOn (holeAssignments d) h)
               \<le> (if h \<in> set [3, 4, 6, 7, 8, 10, 12, 13, 16, 18] then 2 else 1)))
   \<and> (assignments_ok (holeAssignments d) \<longrightarrow>
        assignments_ok (holeAssignments (after_assignTeamToHole teamId hole d))
        \<and> assignments_ok (holeAssignments (after_removeTeamFromHole teamId hole d))
        \<and> assignments_ok (holeAssignments (autoAssignTeams d))
        \<and> assignments_ok (holeAssignments (randomizeTeamAssignments rnd d)))"
proof (rule conjI; rule impI)
  assume "hole_reachable d"
  then have "assignments_ok (holeAssignments d)" by (rule hole_reachable_ok)
  then show "(\<forall>t h1 h2. t \<in> set (teamsOn (holeAssignments d) h1)
                 \<and> t \<in> set (teamsOn (holeAssignments d) h2) \<longrightarrow> h1 = h2)
      \<and> (\<forall>h. length (teamsOn (holeAssignments d) h)
               \<le> (if h \<in> set [3, 4, 6, 7, 8, 10, 12, 13, 16, 18] then 2 else 1))"
    unfolding assignments_ok_def by blast
next
  assume "assignments_ok (holeAssignments d)"
  then show "assignments_ok (holeAssignments (after_assignTeamToHole teamId hole d))
        \<and> assignments_ok (holeAssignments (after_removeTeamFromHole teamId hole d))
        \<and> assignments_ok (holeAssignments (autoAssignTeams d))
        \<and> assignments_ok (holeAssignments (randomizeTeamAssignments rnd d))"
    by (simp add: after_assign_ok after_remove_ok autoAssignTeams_ok randomizeTeamAssignments_ok)
qed

lemma two_on_hole_3_facts:
  "holeAssignments two_on_hole_3 = [(3, [1, 2])]"
  "assignTeamToHole 3 3 two_on_hole_3 = Inl HoleFull"
  by code_simp+

lemma two_on_hole_3_reachable: "hole_reachable two_on_hole_3"
  unfolding two_on_hole_3_def
  by (intro hole_reachable_after_assign hole_reachable.start) (simp add: initial_data_def)

theorem hole_assignments_invariant_witness:
  "hole_reachable two_on_hole_3
   \<and> holeAssignments two_on_hole_3 = [(3, [1, 2])]
   \<and> length (teamsOn (holeAssignments two_on_hole_3) 3) \<le> 2
   \<and> assignTeamToHole 3 3 two_on_hole_3 = Inl HoleFull
   \<and> assignments_ok (holeAssignments two_on_hole_3)
   \<and> assignments_ok (holeAssignments (after_assignTeamToHole 3 4 two_on_hole_3))"
proof -
  note t = hole_assignments_invariant [of two_on_hole_3 3 4 "\<lambda>k. 0"]
  from two_on_hole_3_reachable t [THEN conjunct1]
  have a: "length (teamsOn (holeAssignments two_on_hole_3) 3)
             \<le> (if (3::int) \<in> set [3, 4, 6, 7, 8, 10, 12, 13, 16, 18] then 2 else 1)"
    by blast
  have ok: "assignments_ok (holeAssignments two_on_hole_3)"
    using two_on_hole_3_reachable by (rule hole_reachable_ok)
  with t [THEN conjunct2]
  have b: "assignments_ok (holeAssignments (after_assignTeamToHole 3 4 two_on_hole_3))"
    by blast
  from a have "length (teamsOn (holeAssignments two_on_hole_3) 3) \<le> 2" by simp
  with two_on_hole_3_reachable two_on_hole_3_facts ok b show ?thesis by simp
qed

section \<open>Hole assignment: the two passes\<close>


lemma update_new_key: "k \<notin> fst ` set al \<Longrightarrow> AList.update k v al = al @ [(k, v)]"
  by (induction al) auto

lemma teamsOn_absent: "k \<notin> fst ` set al \<Longrightarrow> teamsOn al k = []"
proof -
  assume "k \<notin> fst ` set al"
  then have "map_of al k = None" by (simp add: map_of_eq_None_iff)
  then show ?thesis by (simp add: teamsOn_def)
qed

lemma mset_concat_update:
  "distinct (map fst al) \<Longrightarrow>
     mset (concat (map snd (AList.update k (teamsOn al k @ [t]) al)))
       = mset (concat (map snd al)) + {#t#}"
proof (induction al)
  case Nil
  then show ?case by simp
next
  case (Cons e al)
  obtain h ts where e: "e = (h, ts)" by (cases e)
  show ?case
  proof (cases "h = k")
    case True
    then show ?thesis by (simp add: e teamsOn_def)
  next
    case False
    with Cons have "mset (concat (map snd (AList.update k (teamsOn al k @ [t]) al)))
       = mset (concat (map snd al)) + {#t#}" by simp
    moreover from False have "teamsOn (e # al) k = teamsOn al k" by (simp add: e teamsOn_def)
    ultimately show ?thesis using False by (simp add: e)
  qed
qed

lemma nth_notin_take: "distinct xs \<Longrightarrow> i < length xs \<Longrightarrow> xs ! i \<notin> set (take i xs)"
proof -
  assume d: "distinct xs" and i: "i < length xs"
  from i have "xs = take i xs @ xs ! i # drop (Suc i) xs" by (rule id_take_nth_drop)
  with d have "distinct (take i xs @ xs ! i # drop (Suc i) xs)" by simp
  then show ?thesis by simp
qed

lemma take_Suc_mset: "i < length xs \<Longrightarrow> mset (take (Suc i) xs) = mset (take i xs) + {#xs ! i#}"
  by (simp add: take_Suc_conv_app_nth)

text \<open>One successful step of a pass: the next team goes to a hole with a free slot.\<close>

lemma assign_next_team:
  assumes ids: "distinct (map id ts)" "0 \<notin> set (map id ts)"
    and i: "i < length ts"
    and m: "mset (concat (map snd (holeAssignments d))) = mset (take i (map id ts))"
    and k: "distinct (map fst (holeAssignments d))"
    and h: "1 \<le> hole" "hole \<le> 18"
    and free: "length (teamsOn (holeAssignments d) hole) < maxTeams hole"
  shows "assignTeamToHole (id (ts ! i)) hole d =
           Inr (d\<lparr>holeAssignments :=
                    AList.update hole (teamsOn (holeAssignments d) hole @ [id (ts ! i)])
                      (holeAssignments d)\<rparr>)"
    and "mset (concat (map snd (AList.update hole (teamsOn (holeAssignments d) hole @ [id (ts ! i)])
                                 (holeAssignments d))))
           = mset (take (Suc i) (map id ts))"
proof -
  from i have n: "map id ts ! i = id (ts ! i)" by simp
  from i ids(2) have nz: "id (ts ! i) \<noteq> 0" by (metis n length_map nth_mem)
  from m have "set (concat (map snd (holeAssignments d))) = set (take i (map id ts))"
    by (metis set_mset_mset)
  with nth_notin_take [OF ids(1), of i] i n
  have new: "id (ts ! i) \<notin> set (concat (map snd (holeAssignments d)))" by simp
  from nz new h free
  show "assignTeamToHole (id (ts ! i)) hole d =
           Inr (d\<lparr>holeAssignments :=
                    AList.update hole (teamsOn (holeAssignments d) hole @ [id (ts ! i)])
                      (holeAssignments d)\<rparr>)"
    by (simp add: assignTeamToHole_def)
  from i have "mset (take (Suc i) (map id ts)) = mset (take i (map id ts)) + {#id (ts ! i)#}"
    using take_Suc_mset [of i "map id ts"] by simp
  with m mset_concat_update [OF k, of hole "id (ts ! i)"]
  show "mset (concat (map snd (AList.update hole (teamsOn (holeAssignments d) hole @ [id (ts ! i)])
                                 (holeAssignments d))))
           = mset (take (Suc i) (map id ts))"
    by simp
qed


lemma take_as_map: "i \<le> length xs \<Longrightarrow> map (\<lambda>k. xs ! k) [0..<i] = take i xs"
  by (simp add: list_eq_iff_nth_eq)

lemma concat_singletons: "concat (map snd (map (\<lambda>k. (a k, [g k])) ks)) = map g ks"
  by (induction ks) auto

lemma distinct_hole_keys: "distinct (map fst (map (\<lambda>k. (int k + 1, g k)) [0..<i]))"
  by (simp add: comp_def distinct_map inj_on_def)

lemma first_pass_layout:
  assumes ids: "distinct (map id ts)" "0 \<notin> set (map id ts)"
  shows "i \<le> 18 \<Longrightarrow> i \<le> length ts \<Longrightarrow>
         holeAssignments d = map (\<lambda>k. (int k + 1, [map id ts ! k])) [0..<i] \<Longrightarrow>
         first_pass (int i + 1) ts i d =
           (min (length ts) 18,
            d\<lparr>holeAssignments :=
                 map (\<lambda>k. (int k + 1, [map id ts ! k])) [0..<min (length ts) 18]\<rparr>)"
proof (induction "18 - i" arbitrary: i d)
  case 0
  then have i: "i = 18" by simp
  with 0 have "min (length ts) 18 = i" by simp
  moreover from i have "first_pass (int i + 1) ts i d = (i, d)" by (simp add: first_pass_stop)
  ultimately show ?case using "0.prems"(3) by (simp add: i)
next
  case (Suc m)
  let ?f = "\<lambda>k. (int k + 1, [map id ts ! k])"
  from Suc.hyps(2) have i18: "i < 18" by simp
  show ?case
  proof (cases "i < length ts")
    case False
    with Suc.prems have n: "i = length ts" by simp
    with i18 have "min (length ts) 18 = i" by simp
    moreover from n have "first_pass (int i + 1) ts i d = (i, d)" by (simp add: first_pass_stop)
    ultimately show ?thesis using Suc.prems(3) by simp
  next
    case True
    have "concat (map snd (holeAssignments d)) = map (\<lambda>k. map id ts ! k) [0..<i]"
      unfolding Suc.prems(3) by (rule concat_singletons)
    also have "\<dots> = take i (map id ts)" using Suc.prems(2) by (intro take_as_map) simp
    finally have m: "mset (concat (map snd (holeAssignments d))) = mset (take i (map id ts))"
      by simp
    have k: "distinct (map fst (holeAssignments d))"
      by (simp only: Suc.prems(3) distinct_hole_keys)
    have absent: "int i + 1 \<notin> fst ` set (holeAssignments d)"
      by (auto simp: Suc.prems(3))
    then have on: "teamsOn (holeAssignments d) (int i + 1) = []" by (rule teamsOn_absent)
    then have free: "length (teamsOn (holeAssignments d) (int i + 1)) < maxTeams (int i + 1)"
      by (simp add: maxTeams_def)
    from i18 have h: "1 \<le> int i + 1" "int i + 1 \<le> 18" by simp_all
    let ?d' = "d\<lparr>holeAssignments := map ?f [0..<Suc i]\<rparr>"
    have "AList.update (int i + 1) (teamsOn (holeAssignments d) (int i + 1) @ [id (ts ! i)])
            (holeAssignments d) = holeAssignments d @ [(int i + 1, [id (ts ! i)])]"
      by (simp only: on update_new_key [OF absent] append_Nil)
    also have "\<dots> = map ?f [0..<Suc i]"
      using True by (simp add: Suc.prems(3))
    finally have "AList.update (int i + 1) (teamsOn (holeAssignments d) (int i + 1) @ [id (ts ! i)])
            (holeAssignments d) = map ?f [0..<Suc i]" .
    with assign_next_team(1) [OF ids True m k h free]
    have a: "assignTeamToHole (id (ts ! i)) (int i + 1) d = Inr ?d'" by simp
    from h True a have "first_pass (int i + 1) ts i d = first_pass (int i + 1 + 1) ts (Suc i) ?d'"
      by (simp add: first_pass_Inr)
    also have "int i + 1 + 1 = int (Suc i) + 1" by simp
    also have "first_pass (int (Suc i) + 1) ts (Suc i) ?d' =
           (min (length ts) 18,
            ?d'\<lparr>holeAssignments := map ?f [0..<min (length ts) 18]\<rparr>)"
      using Suc.hyps(2) i18 True by (intro Suc.hyps(1)) simp_all
    finally show ?thesis by simp
  qed
qed


lemma filter_less_Suc:
  "distinct (xs :: int list) \<Longrightarrow>
     length (filter (\<lambda>y. y < h + 1) xs)
       = length (filter (\<lambda>y. y < h) xs) + (if h \<in> set xs then 1 else 0)"
  by (induction xs) auto

lemma filter_less_mono:
  "(a :: int) \<le> b \<Longrightarrow> length (filter (\<lambda>y. y < a) xs) \<le> length (filter (\<lambda>y. y < b) xs)"
  by (induction xs) auto

lemma stack_rank_Suc:
  "stack_rank (int (Suc j) + 1)
     = stack_rank (int j + 1) + (if int j + 1 \<in> set doubleStackedHoles then 1 else 0)"
proof -
  have "distinct doubleStackedHoles" by (simp add: doubleStackedHoles_def)
  from filter_less_Suc [OF this, of "int j + 1"] show ?thesis
    by (simp add: stack_rank_def add.commute)
qed

lemma stack_rank_mono: "j \<le> k \<Longrightarrow> stack_rank (int j + 1) \<le> stack_rank (int k + 1)"
  unfolding stack_rank_def by (rule filter_less_mono) simp

lemma stack_rank_first: "stack_rank (int 0 + 1) = 0"
  by (simp add: stack_rank_def doubleStackedHoles_def)

lemma stack_rank_last: "stack_rank (int 18 + 1) = 10"
  by (simp add: stack_rank_def doubleStackedHoles_def)

lemma stack_rank_le: "j \<le> 18 \<Longrightarrow> stack_rank (int j + 1) \<le> 10"
  using stack_rank_mono [of j 18] stack_rank_last by simp

lemma map_of_hole:
  "j \<in> set ks \<Longrightarrow> map_of (map (\<lambda>k. (int k + 1, g k)) ks) (int j + 1) = Some (g j)"
  by (induction ks) auto

lemma teamsOn_hole: "j < 18 \<Longrightarrow> teamsOn (map (\<lambda>k. (int k + 1, g k)) [0..<18]) (int j + 1) = g j"
  by (simp add: teamsOn_def map_of_hole)

lemma update_hole_absent:
  "j \<notin> set ks \<Longrightarrow>
     map (\<lambda>k. (int k + 1, if k = j then v else g k)) ks = map (\<lambda>k. (int k + 1, g k)) ks"
  by (induction ks) auto

lemma update_hole:
  "distinct ks \<Longrightarrow> j \<in> set ks \<Longrightarrow>
     AList.update (int j + 1) v (map (\<lambda>k. (int k + 1, g k)) ks)
       = map (\<lambda>k. (int k + 1, if k = j then v else g k)) ks"
proof (induction ks)
  case Nil
  then show ?case by simp
next
  case (Cons a ks)
  show ?case
  proof (cases "a = j")
    case True
    with Cons.prems have "j \<notin> set ks" by simp
    then show ?thesis using True by (simp add: update_hole_absent)
  next
    case False
    with Cons show ?thesis by simp
  qed
qed


lemma partial_layout_done:
  assumes "j \<le> 18" "length ids \<le> 18 + stack_rank (int j + 1)"
  shows "partial_layout ids j = partial_layout ids 18"
proof -
  have "\<And>k. k < 18 \<Longrightarrow> \<not> k < j \<Longrightarrow> second_slot ids (int k + 1) = []"
  proof -
    fix k :: nat
    assume "k < 18" "\<not> k < j"
    then have "stack_rank (int j + 1) \<le> stack_rank (int k + 1)" by (intro stack_rank_mono) simp
    with assms(2) show "second_slot ids (int k + 1) = []" by (simp add: second_slot_def)
  qed
  then show ?thesis by (auto simp: partial_layout_def)
qed

lemma partial_layout_skip:
  assumes "int j + 1 \<notin> set doubleStackedHoles"
  shows "partial_layout ids (Suc j) = partial_layout ids j"
proof -
  from assms have "second_slot ids (int j + 1) = []" by (simp add: second_slot_def)
  then have "\<And>k. (if k < Suc j then second_slot ids (int k + 1) else [])
               = (if k < j then second_slot ids (int k + 1) else [])"
    by (auto simp: less_Suc_eq)
  then show ?thesis by (simp add: partial_layout_def)
qed

lemma partial_layout_fill:
  assumes "j < 18" "int j + 1 \<in> set doubleStackedHoles" "18 + stack_rank (int j + 1) < length ids"
  shows "AList.update (int j + 1) ([ids ! j] @ [ids ! (18 + stack_rank (int j + 1))])
           (partial_layout ids j) = partial_layout ids (Suc j)"
proof -
  from assms(2,3) have s: "second_slot ids (int j + 1) = [ids ! (18 + stack_rank (int j + 1))]"
    by (simp add: second_slot_def)
  have "AList.update (int j + 1) ([ids ! j] @ [ids ! (18 + stack_rank (int j + 1))])
           (partial_layout ids j)
        = map (\<lambda>k. (int k + 1,
                     if k = j then [ids ! j] @ [ids ! (18 + stack_rank (int j + 1))]
                     else ids ! k # (if k < j then second_slot ids (int k + 1) else [])))
            [0..<18]"
    unfolding partial_layout_def using assms(1) by (intro update_hole) simp_all
  also have "\<dots> = partial_layout ids (Suc j)"
    unfolding partial_layout_def by (rule map_cong) (auto simp: s less_Suc_eq)
  finally show ?thesis .
qed

lemma second_pass_layout:
  assumes ids: "distinct (map id ts)" "0 \<notin> set (map id ts)"
  shows "j \<le> 18 \<Longrightarrow> holeAssignments d = partial_layout (map id ts) j \<Longrightarrow>
         i = min (length ts) (18 + stack_rank (int j + 1)) \<Longrightarrow>
         mset (concat (map snd (holeAssignments d))) = mset (take i (map id ts)) \<Longrightarrow>
         second_pass (int j + 1) ts i d =
           (min (length ts) 28, d\<lparr>holeAssignments := partial_layout (map id ts) 18\<rparr>)
         \<and> mset (concat (map snd (partial_layout (map id ts) 18)))
             = mset (take (min (length ts) 28) (map id ts))"
proof (induction "18 - j" arbitrary: j i d)
  case 0
  then have j: "j = 18" by simp
  with "0.prems"(3) stack_rank_last have i: "i = min (length ts) 28" by simp
  from j have "second_pass (int j + 1) ts i d = (i, d)" by (simp add: second_pass_stop)
  with i j "0.prems"(2,4) show ?case by simp
next
  case (Suc m)
  let ?ids = "map id ts"
  from Suc.hyps(2) have j18: "j < 18" by simp
  then have h: "1 \<le> int j + 1" "int j + 1 \<le> 18" by simp_all
  show ?case
  proof (cases "i < length ts")
    case False
    with Suc.prems(3) have n: "length ts \<le> 18 + stack_rank (int j + 1)" and i: "i = length ts"
      by simp_all
    from n stack_rank_le [of j] j18 have "min (length ts) 28 = i" by (simp add: i)
    moreover from i have "second_pass (int j + 1) ts i d = (i, d)" by (simp add: second_pass_stop)
    moreover from n have "partial_layout ?ids j = partial_layout ?ids 18"
      using Suc.prems(1) by (intro partial_layout_done) simp_all
    ultimately show ?thesis using Suc.prems(2,4) by simp
  next
    case True
    with Suc.prems(3) have i: "i = 18 + stack_rank (int j + 1)" by simp
    show ?thesis
    proof (cases "int j + 1 \<in> set doubleStackedHoles")
      case False
      with h True have "second_pass (int j + 1) ts i d = second_pass (int j + 1 + 1) ts i d"
        by (simp add: second_pass_skip)
      also have "int j + 1 + 1 = int (Suc j) + 1" by simp
      finally have step: "second_pass (int j + 1) ts i d = second_pass (int (Suc j) + 1) ts i d" .
      from False have r: "stack_rank (int (Suc j) + 1) = stack_rank (int j + 1)"
        by (simp only: stack_rank_Suc if_False add_0_right)
      have p1: "m = 18 - Suc j" using Suc.hyps(2) by simp
      have p2: "Suc j \<le> 18" using j18 by simp
      have p3: "holeAssignments d = partial_layout ?ids (Suc j)"
        using Suc.prems(2) partial_layout_skip [OF False, of ?ids] by simp
      have p4: "i = min (length ts) (18 + stack_rank (int (Suc j) + 1))"
        using Suc.prems(3) by (simp only: r)
      from Suc.hyps(1) [OF p1 p2 p3 p4 Suc.prems(4)] step show ?thesis by simp
    next
      case dsh: True
      from j18 have on: "teamsOn (holeAssignments d) (int j + 1) = [?ids ! j]"
        by (simp add: Suc.prems(2) partial_layout_def teamsOn_hole)
      from dsh have mx: "maxTeams (int j + 1) = 2" by (simp add: maxTeams_def)
      from on mx have free: "length (teamsOn (holeAssignments d) (int j + 1)) < maxTeams (int j + 1)"
        by simp
      have k: "distinct (map fst (holeAssignments d))"
        by (simp only: Suc.prems(2) partial_layout_def distinct_hole_keys)
      from True have idi: "?ids ! i = id (ts ! i)" by simp
      from True i have lt: "18 + stack_rank (int j + 1) < length ?ids" by simp
      have upd: "AList.update (int j + 1) (teamsOn (holeAssignments d) (int j + 1) @ [id (ts ! i)])
                   (holeAssignments d) = partial_layout ?ids (Suc j)"
      proof -
        from j18 have on': "teamsOn (partial_layout ?ids j) (int j + 1) = [?ids ! j]"
          by (simp add: partial_layout_def teamsOn_hole)
        from lt have idi': "id (ts ! (18 + stack_rank (int j + 1)))
                             = ?ids ! (18 + stack_rank (int j + 1))"
          by simp
        show ?thesis
          unfolding Suc.prems(2) on' i idi' by (rule partial_layout_fill [OF j18 dsh lt])
      qed
      let ?d' = "d\<lparr>holeAssignments := partial_layout ?ids (Suc j)\<rparr>"
      from assign_next_team [OF ids True Suc.prems(4) k h free] upd
      have a: "assignTeamToHole (id (ts ! i)) (int j + 1) d = Inr ?d'"
        and m': "mset (concat (map snd (partial_layout ?ids (Suc j)))) = mset (take (Suc i) ?ids)"
        by simp_all
      from on have two: "length (teamsOn (holeAssignments d) (int j + 1)) < 2" by simp
      from h(2) True dsh two a
      have "second_pass (int j + 1) ts i d = second_pass (int j + 1 + 1) ts (Suc i) ?d'"
        by (rule second_pass_Inr)
      also have "int j + 1 + 1 = int (Suc j) + 1" by simp
      finally have step:
        "second_pass (int j + 1) ts i d = second_pass (int (Suc j) + 1) ts (Suc i) ?d'" .
      from dsh have r: "stack_rank (int (Suc j) + 1) = stack_rank (int j + 1) + 1"
        by (simp only: stack_rank_Suc if_True)
      have p1: "m = 18 - Suc j" using Suc.hyps(2) by simp
      have p2: "Suc j \<le> 18" using j18 by simp
      have p3: "holeAssignments ?d' = partial_layout ?ids (Suc j)" by simp
      have p4: "Suc i = min (length ts) (18 + stack_rank (int (Suc j) + 1))"
      proof -
        have "Suc i = min (length ts) (18 + (stack_rank (int j + 1) + 1))"
          using True i by simp
        then show ?thesis by (simp only: r)
      qed
      have p5: "mset (concat (map snd (holeAssignments ?d'))) = mset (take (Suc i) ?ids)"
        using m' by simp
      from Suc.hyps(1) [OF p1 p2 p3 p4 p5] step show ?thesis by simp
    qed
  qed
qed


lemma two_pass_layout_small:
  assumes "length ids \<le> 18"
  shows "two_pass_layout ids = map (\<lambda>k. (int k + 1, [ids ! k])) [0..<length ids]"
proof -
  from assms have "\<And>h. second_slot ids h = []" by (simp add: second_slot_def)
  with assms show ?thesis by (simp add: two_pass_layout_def)
qed

lemma two_pass_layout_large:
  assumes "18 \<le> length ids"
  shows "two_pass_layout ids = partial_layout ids 18"
  using assms by (simp add: two_pass_layout_def partial_layout_def)

lemma two_passes_layout:
  assumes ids: "distinct (map id ts)" "0 \<notin> set (map id ts)"
    and e: "holeAssignments d = []"
  shows "two_passes ts d =
           (min (length ts) 28, d\<lparr>holeAssignments := two_pass_layout (map id ts)\<rparr>)
         \<and> mset (concat (map snd (two_pass_layout (map id ts))))
             = mset (take (min (length ts) 28) (map id ts))"
proof -
  let ?ids = "map id ts"
  let ?f = "\<lambda>k. (int k + 1, [?ids ! k])"
  let ?d1 = "d\<lparr>holeAssignments := map ?f [0..<min (length ts) 18]\<rparr>"
  from e have "holeAssignments d = map ?f [0..<0]" by simp
  from first_pass_layout [OF ids _ _ this]
  have f: "first_pass 1 ts 0 d = (min (length ts) 18, ?d1)" by simp
  show ?thesis
  proof (cases "length ts \<le> 18")
    case True
    then have m: "min (length ts) 18 = length ts" by simp
    have l: "two_pass_layout ?ids = map ?f [0..<length ts]"
      using True two_pass_layout_small [of ?ids] by simp
    have "second_pass 1 ts (length ts) ?d1 = (length ts, ?d1)" by (simp add: second_pass_stop)
    with f m l have 1: "two_passes ts d =
           (min (length ts) 28, d\<lparr>holeAssignments := two_pass_layout ?ids\<rparr>)"
      using True by (simp add: two_passes_def)
    have "concat (map snd (two_pass_layout ?ids)) = map (\<lambda>k. ?ids ! k) [0..<length ts]"
      unfolding l by (rule concat_singletons)
    also have "\<dots> = take (length ts) ?ids" by (intro take_as_map) simp
    finally have "mset (concat (map snd (two_pass_layout ?ids)))
             = mset (take (min (length ts) 28) ?ids)"
      using True by simp
    with 1 show ?thesis by simp
  next
    case False
    then have m: "min (length ts) 18 = 18" and n: "18 \<le> length ?ids" by simp_all
    have p: "holeAssignments ?d1 = partial_layout ?ids 0"
      by (simp add: m partial_layout_def)
    have i: "18 = min (length ts) (18 + stack_rank (int 0 + 1))"
      using False stack_rank_first by simp
    have "concat (map snd (map ?f [0..<18])) = map (\<lambda>k. ?ids ! k) [0..<18]"
      by (rule concat_singletons)
    also have "\<dots> = take 18 ?ids" using n by (intro take_as_map)
    finally have c: "mset (concat (map snd (holeAssignments ?d1))) = mset (take 18 ?ids)"
      by (simp add: m)
    from second_pass_layout [OF ids _ p i c]
    have s: "second_pass 1 ts 18 ?d1 =
           (min (length ts) 28, ?d1\<lparr>holeAssignments := partial_layout ?ids 18\<rparr>)"
      and ms: "mset (concat (map snd (partial_layout ?ids 18)))
             = mset (take (min (length ts) 28) ?ids)"
      by simp_all
    from f s m have "two_passes ts d =
           (min (length ts) 28, d\<lparr>holeAssignments := partial_layout ?ids 18\<rparr>)"
      by (simp add: two_passes_def)
    with ms two_pass_layout_large [OF n] show ?thesis by simp
  qed
qed

lemma getUnassigned_cleared:
  "getUnassignedTeamsInternal (d\<lparr>holeAssignments := []\<rparr>) = teams d"
  by (simp add: getUnassignedTeamsInternal_def getAssignedTeamIds_def)

lemma swap_mset: "i < length xs \<Longrightarrow> j < length xs \<Longrightarrow> mset (swap i j xs) = mset xs"
  by (simp add: swap_def mset_swap)

lemma swap_length [simp]: "length (swap i j xs) = length xs"
  by (simp add: swap_def)

lemma random_index_less:
  assumes "0 \<le> r" "r < 1" "0 < n"
  shows "random_index r n < n"
proof -
  from assms have "r * of_nat n < of_nat n" by simp
  then have "\<lfloor>r * of_nat n\<rfloor> < int n" by (simp add: floor_less_iff)
  moreover from assms have "0 \<le> \<lfloor>r * of_nat n\<rfloor>" by simp
  ultimately have "nat \<lfloor>r * of_nat n\<rfloor> < n" by linarith
  then show ?thesis by (simp add: random_index_def)
qed

lemma shuffle_from_mset:
  "(\<forall>k. 0 \<le> rnd k \<and> rnd k < 1) \<Longrightarrow> i < length xs \<Longrightarrow>
     mset (shuffle_from rnd i k xs) = mset xs \<and> length (shuffle_from rnd i k xs) = length xs"
proof (induction i arbitrary: k xs)
  case 0
  then show ?case by simp
next
  case (Suc i)
  from Suc.prems(1) have "random_index (rnd k) (Suc i + 1) < Suc i + 1"
    by (intro random_index_less) simp_all
  with Suc.prems(2) have j: "random_index (rnd k) (Suc i + 1) < length xs" by simp
  from Suc.prems(2) j have "mset (swap (Suc i) (random_index (rnd k) (Suc i + 1)) xs) = mset xs"
    by (simp add: swap_mset)
  moreover from Suc.prems(2)
  have "i < length (swap (Suc i) (random_index (rnd k) (Suc i + 1)) xs)" by simp
  ultimately show ?case using Suc.IH [OF Suc.prems(1)] by simp
qed

lemma shuffle_mset:
  "(\<forall>k. 0 \<le> rnd k \<and> rnd k < 1) \<Longrightarrow> mset (shuffle rnd xs) = mset xs"
  by (cases xs) (simp_all add: shuffle_def shuffle_from_mset)


lemma autoAssignTeams_layout:
  assumes "distinct (map id (teams d))" "0 \<notin> set (map id (teams d))"
  shows "autoAssignTeams d = d\<lparr>holeAssignments := two_pass_layout (map id (teams d))\<rparr>"
  using two_passes_layout [OF assms, of "d\<lparr>holeAssignments := []\<rparr>"]
  by (simp add: autoAssignTeams_def Let_def getUnassigned_cleared)

lemma randomizeTeamAssignments_layout:
  assumes "distinct (map id (teams d))" "0 \<notin> set (map id (teams d))"
    and "\<forall>k. 0 \<le> rnd k \<and> rnd k < 1"
  shows "randomizeTeamAssignments rnd d =
           d\<lparr>holeAssignments := two_pass_layout (map id (shuffle rnd (teams d)))\<rparr>"
proof -
  from shuffle_mset [OF assms(3), of "teams d"]
  have m: "mset (map id (shuffle rnd (teams d))) = mset (map id (teams d))" by simp
  from m assms(1) have 1: "distinct (map id (shuffle rnd (teams d)))"
    by (metis mset_eq_imp_distinct_iff)
  from m assms(2) have 2: "0 \<notin> set (map id (shuffle rnd (teams d)))"
    by (metis set_mset_mset)
  from two_passes_layout [OF 1 2, of "d\<lparr>holeAssignments := []\<rparr>"]
  show ?thesis
    by (simp add: randomizeTeamAssignments_def Let_def getUnassigned_cleared)
qed

lemma layout_count:
  assumes "distinct ids" "0 \<notin> set ids"
  shows "length (concat (map snd (two_pass_layout ids))) = min (length ids) 28
         \<and> distinct (concat (map snd (two_pass_layout ids)))
         \<and> set (concat (map snd (two_pass_layout ids))) = set (take 28 ids)"
proof -
  define ts where "ts = map (\<lambda>i. \<lparr>id = i, members = [], totalHandicap = 0\<rparr>) ids"
  have i: "map id ts = ids" by (simp add: ts_def comp_def)
  from two_passes_layout [of ts "initial_data"] assms
  have m: "mset (concat (map snd (two_pass_layout ids))) = mset (take (min (length ids) 28) ids)"
    by (simp add: i initial_data_def) (simp add: ts_def)
  have t: "take (min (length ids) 28) ids = take 28 ids" by (simp add: min_def)
  from m have "length (concat (map snd (two_pass_layout ids))) = length (take (min (length ids) 28) ids)"
    by (metis size_mset)
  moreover from m assms(1) have "distinct (concat (map snd (two_pass_layout ids)))"
    by (metis mset_eq_imp_distinct_iff distinct_take)
  moreover from m have "set (concat (map snd (two_pass_layout ids))) = set (take 28 ids)"
    by (metis set_mset_mset t)
  ultimately show ?thesis by simp
qed


lemma random_index_interval:
  assumes "0 < m" "0 \<le> r"
  shows "random_index r m = j \<longleftrightarrow> of_nat j / of_nat m \<le> r \<and> r < (of_nat j + 1) / of_nat m"
proof -
  from assms have nn: "0 \<le> \<lfloor>r * of_nat m\<rfloor>" by simp
  then have "random_index r m = j \<longleftrightarrow> \<lfloor>r * of_nat m\<rfloor> = int j"
    by (auto simp: random_index_def)
  also have "\<dots> \<longleftrightarrow> of_nat j \<le> r * of_nat m \<and> r * of_nat m < of_nat j + 1"
    by (simp add: floor_eq_iff)
  also have "\<dots> \<longleftrightarrow> of_nat j / of_nat m \<le> r \<and> r < (of_nat j + 1) / of_nat m"
    using assms(1) by (simp add: pos_divide_le_eq pos_less_divide_eq)
  finally show ?thesis .
qed

lemma random_index_choice:
  assumes "j < m"
  shows "0 \<le> (of_nat j / of_nat m :: rat) \<and> (of_nat j / of_nat m :: rat) < 1
         \<and> random_index (of_nat j / of_nat m) m = j"
proof -
  from assms have m: "0 < m" by simp
  have a: "0 \<le> (of_nat j / of_nat m :: rat)" by simp
  from assms have b: "(of_nat j / of_nat m :: rat) < 1" by simp
  have c: "(of_nat j :: rat) < of_nat j + 1" by simp
  from m c have "(of_nat j / of_nat m :: rat) < (of_nat j + 1) / of_nat m"
    by (simp add: divide_strict_right_mono)
  with a b show ?thesis using random_index_interval [OF m a, of j] by simp
qed

lemma swap_nth_top: "i < length xs \<Longrightarrow> j < length xs \<Longrightarrow> swap i j xs ! i = xs ! j"
  by (simp add: swap_def nth_list_update)

lemma swap_nth_other: "p \<noteq> i \<Longrightarrow> p \<noteq> j \<Longrightarrow> swap i j xs ! p = xs ! p"
  by (simp add: swap_def)

lemma shuffle_from_above:
  "(\<forall>k. 0 \<le> rnd k \<and> rnd k < 1) \<Longrightarrow> i < p \<Longrightarrow> shuffle_from rnd i k xs ! p = xs ! p"
proof (induction i arbitrary: k xs)
  case 0
  then show ?case by simp
next
  case (Suc i)
  from Suc.prems(1) have "random_index (rnd k) (Suc i + 1) < Suc i + 1"
    by (intro random_index_less) simp_all
  with Suc.prems(2) have "p \<noteq> Suc i" "p \<noteq> random_index (rnd k) (Suc i + 1)" by simp_all
  then have "swap (Suc i) (random_index (rnd k) (Suc i + 1)) xs ! p = xs ! p"
    by (rule swap_nth_other)
  moreover from Suc.prems(2) have "i < p" by simp
  ultimately show ?case using Suc.IH [OF Suc.prems(1)] by simp
qed

lemma shuffle_from_top:
  assumes "\<forall>k. 0 \<le> rnd k \<and> rnd k < 1" "Suc i < length xs"
  shows "shuffle_from rnd (Suc i) k xs ! Suc i = xs ! random_index (rnd k) (Suc i + 1)"
proof -
  from assms(1) have "random_index (rnd k) (Suc i + 1) < Suc i + 1"
    by (intro random_index_less) simp_all
  with assms(2) have j: "random_index (rnd k) (Suc i + 1) < length xs" by simp
  have "shuffle_from rnd (Suc i) k xs ! Suc i
          = swap (Suc i) (random_index (rnd k) (Suc i + 1)) xs ! Suc i"
    using shuffle_from_above [OF assms(1), of i "Suc i"] by simp
  also have "\<dots> = xs ! random_index (rnd k) (Suc i + 1)"
    using assms(2) j by (rule swap_nth_top)
  finally show ?thesis .
qed

lemma shuffle_from_inj:
  "distinct xs \<Longrightarrow> i < length xs \<Longrightarrow> (\<forall>k. 0 \<le> rnd k \<and> rnd k < 1) \<Longrightarrow>
   (\<forall>k. 0 \<le> rnd' k \<and> rnd' k < 1) \<Longrightarrow>
   shuffle_from rnd i k xs = shuffle_from rnd' i k' xs \<Longrightarrow>
   m < i \<Longrightarrow> random_index (rnd (k + m)) (i - m + 1) = random_index (rnd' (k' + m)) (i - m + 1)"
proof (induction i arbitrary: k k' xs m)
  case 0
  then show ?case by simp
next
  case (Suc i)
  let ?j = "random_index (rnd k) (Suc i + 1)"
  let ?j' = "random_index (rnd' k') (Suc i + 1)"
  from Suc.prems(3) have "?j < Suc i + 1" by (intro random_index_less) simp_all
  with Suc.prems(2) have j: "?j < length xs" by simp
  from Suc.prems(4) have "?j' < Suc i + 1" by (intro random_index_less) simp_all
  with Suc.prems(2) have j': "?j' < length xs" by simp
  from Suc.prems(5) have "shuffle_from rnd (Suc i) k xs ! Suc i = shuffle_from rnd' (Suc i) k' xs ! Suc i"
    by simp
  then have "xs ! ?j = xs ! ?j'"
    by (simp only: shuffle_from_top [OF Suc.prems(3) Suc.prems(2)]
          shuffle_from_top [OF Suc.prems(4) Suc.prems(2)])
  with Suc.prems(1) j j' have eq: "?j = ?j'" by (simp add: nth_eq_iff_index_eq)
  show ?case
  proof (cases m)
    case 0
    with eq show ?thesis by simp
  next
    case (Suc m')
    let ?ys = "swap (Suc i) ?j xs"
    from Suc.prems(2) j have "mset ?ys = mset xs" by (simp add: swap_mset)
    with Suc.prems(1) have d: "distinct ?ys" by (metis mset_eq_imp_distinct_iff)
    from Suc.prems(2) have l: "i < length ?ys" by simp
    from Suc.prems(5) eq have e: "shuffle_from rnd i (Suc k) ?ys = shuffle_from rnd' i (Suc k') ?ys"
      by simp
    from Suc.prems(6) Suc have "m' < i" by simp
    from Suc.IH [OF d l Suc.prems(3) Suc.prems(4) e this] Suc show ?thesis by simp
  qed
qed

lemma shuffle_from_cong:
  "\<forall>m\<ge>k. rnd m = rnd' m \<Longrightarrow> shuffle_from rnd i k xs = shuffle_from rnd' i k xs"
proof (induction i arbitrary: k xs)
  case 0
  then show ?case by simp
next
  case (Suc i)
  from Suc.prems have a: "rnd k = rnd' k" by simp
  from Suc.prems have "\<forall>m\<ge>Suc k. rnd m = rnd' m" by simp
  from Suc.IH [OF this] a show ?case by simp
qed

lemma take_swap:
  "i < n \<Longrightarrow> j < n \<Longrightarrow> take n (swap i j xs) = swap i j (take n xs)"
  by (simp add: swap_def take_update_swap)

lemma shuffle_from_surj:
  "i < length xs \<Longrightarrow> length zs = length xs \<Longrightarrow>
   mset (take (Suc i) zs) = mset (take (Suc i) xs) \<Longrightarrow>
   drop (Suc i) zs = drop (Suc i) xs \<Longrightarrow>
   \<exists>rnd. (\<forall>k. 0 \<le> rnd k \<and> rnd k < 1) \<and> shuffle_from rnd i k xs = zs"
proof (induction i arbitrary: k xs zs)
  case 0
  from "0.prems"(1,2) have "take 1 zs = [zs ! 0]" "take 1 xs = [xs ! 0]"
    by (simp_all add: take_Suc_conv_app_nth)
  with "0.prems"(3) have "take 1 zs = take 1 xs" by simp
  with "0.prems"(4) have "zs = xs" by (metis One_nat_def append_take_drop_id)
  then show ?case by (intro exI [of _ "\<lambda>_. 0"]) simp
next
  case (Suc i)
  let ?z = "zs ! Suc i"
  from Suc.prems(1,2) have tz: "take (Suc (Suc i)) zs = take (Suc i) zs @ [?z]"
    by (simp add: take_Suc_conv_app_nth)
  then have "?z \<in># mset (take (Suc (Suc i)) zs)" by simp
  with Suc.prems(3) have "?z \<in> set (take (Suc (Suc i)) xs)" by (metis set_mset_mset)
  then obtain j where j: "j < Suc (Suc i)" and xj: "xs ! j = ?z"
    by (auto simp: in_set_conv_nth)
  from j Suc.prems(1) have jl: "j < length xs" by simp
  let ?ys = "swap (Suc i) j xs"
  have top: "?ys ! Suc i = ?z" using Suc.prems(1) jl xj by (simp add: swap_nth_top)
  have ly: "length ?ys = length xs" by simp
  have "take (Suc (Suc i)) ?ys = swap (Suc i) j (take (Suc (Suc i)) xs)"
    using j by (intro take_swap) simp_all
  then have p: "mset (take (Suc (Suc i)) ?ys) = mset (take (Suc (Suc i)) xs)"
    using j Suc.prems(1) by (simp add: swap_mset)
  have "take (Suc (Suc i)) ?ys = take (Suc i) ?ys @ [?z]"
    using Suc.prems(1) top by (simp add: take_Suc_conv_app_nth)
  then have a: "mset (take (Suc (Suc i)) ?ys) = add_mset ?z (mset (take (Suc i) ?ys))"
    by simp
  from tz have b: "mset (take (Suc (Suc i)) zs) = add_mset ?z (mset (take (Suc i) zs))"
    by simp
  from a b p Suc.prems(3)
  have "add_mset ?z (mset (take (Suc i) zs)) = add_mset ?z (mset (take (Suc i) ?ys))"
    by simp
  then have m: "mset (take (Suc i) zs) = mset (take (Suc i) ?ys)" by simp
  have "drop (Suc (Suc i)) ?ys = drop (Suc (Suc i)) xs"
    using j by (simp add: swap_def)
  with Suc.prems(4) have "drop (Suc (Suc i)) zs = drop (Suc (Suc i)) ?ys" by simp
  moreover have "drop (Suc i) zs = ?z # drop (Suc (Suc i)) zs"
    using Suc.prems(1,2) by (simp add: Cons_nth_drop_Suc)
  moreover have "drop (Suc i) ?ys = ?z # drop (Suc (Suc i)) ?ys"
    using Suc.prems(1) top by (metis Cons_nth_drop_Suc ly)
  ultimately have dr: "drop (Suc i) zs = drop (Suc i) ?ys" by simp
  from Suc.prems(1) have "i < length ?ys" by simp
  from Suc.IH [OF this _ m dr, of "Suc k"] Suc.prems(2)
  obtain rnd' where v: "\<forall>k. 0 \<le> rnd' k \<and> rnd' k < 1"
    and s: "shuffle_from rnd' i (Suc k) ?ys = zs"
    by auto
  let ?r = "of_nat j / of_nat (Suc i + 1) :: rat"
  let ?rnd = "rnd'(k := ?r)"
  from j have c: "0 \<le> ?r \<and> ?r < 1 \<and> random_index ?r (Suc i + 1) = j"
    by (intro random_index_choice) simp
  with v have v': "\<forall>k. 0 \<le> ?rnd k \<and> ?rnd k < 1" by simp
  have "shuffle_from ?rnd i (Suc k) ?ys = shuffle_from rnd' i (Suc k) ?ys"
    by (rule shuffle_from_cong) simp
  with s c have "shuffle_from ?rnd (Suc i) k xs = zs" by simp
  with v' show ?case by blast
qed

lemma shuffle_surj:
  assumes "mset zs = mset xs"
  shows "\<exists>rnd. (\<forall>k. 0 \<le> rnd k \<and> rnd k < 1) \<and> shuffle rnd xs = zs"
proof (cases xs)
  case Nil
  with assms show ?thesis by (intro exI [of _ "\<lambda>_. 0"]) (simp add: shuffle_def)
next
  case (Cons a as)
  from assms have l: "length zs = length xs" by (metis size_mset)
  from Cons have i: "length xs - 1 < length xs" "Suc (length xs - 1) = length xs" by simp_all
  from shuffle_from_surj [OF i(1) l, of 0] assms l i(2) show ?thesis
    by (simp add: shuffle_def)
qed

lemma shuffle_inj:
  assumes "distinct xs" "\<forall>k. 0 \<le> rnd k \<and> rnd k < 1" "\<forall>k. 0 \<le> rnd' k \<and> rnd' k < 1"
    and "shuffle rnd xs = shuffle rnd' xs" "m < length xs - 1"
  shows "random_index (rnd m) (length xs - m) = random_index (rnd' m) (length xs - m)"
proof -
  from assms(5) have i: "length xs - 1 < length xs" by simp
  from assms(4)
  have e: "shuffle_from rnd (length xs - 1) 0 xs = shuffle_from rnd' (length xs - 1) 0 xs"
    by (simp add: shuffle_def)
  from assms(5) have "length xs - 1 - m + 1 = length xs - m" by simp
  with shuffle_from_inj [OF assms(1) i assms(2,3) e assms(5)]
  show ?thesis by simp
qed


text \<open>
  Claim C5.  The team ids of a store are distinct and not 0 (they are 1, 2, ... in the
  order of the teams).  Then \<open>autoAssignTeams\<close> replaces whatever assignments there
  were by the layout of the two passes for the teams in their order: pass 1 puts the
  team of index \<open>k\<close> on hole \<open>k + 1\<close> for the first 18 teams, pass 2 puts the teams
  from index 18 on the double-stacked holes in the order of the holes.  It assigns
  \<open>min(teamCount, 28)\<close> teams and no team id twice, and it is a function of the team
  order.  \<open>randomizeTeamAssignments\<close> gives the same layout for the shuffled team
  order.  The shuffled order is a permutation of the teams; every permutation is the
  result for some random numbers, only for one choice of the indices
  \<^verbatim>\<open>Math.floor(Math.random() * (i + 1))\<close>, and each value \<open>j\<close> of such an index is
  drawn exactly for the random numbers of an interval of length \<open>1 / (i + 1)\<close>: the
  shuffle is uniform.
\<close>

theorem two_pass_assignment:
  assumes "distinct (map id (teams d))" and "0 \<notin> set (map id (teams d))"
    and "\<forall>k. 0 \<le> rnd k \<and> rnd k < 1"
  shows
    "autoAssignTeams d = d\<lparr>holeAssignments := two_pass_layout (map id (teams d))\<rparr>
     \<and> length (concat (map snd (holeAssignments (autoAssignTeams d)))) = min (length (teams d)) 28
     \<and> distinct (concat (map snd (holeAssignments (autoAssignTeams d))))
     \<and> randomizeTeamAssignments rnd d =
         d\<lparr>holeAssignments := two_pass_layout (map id (shuffle rnd (teams d)))\<rparr>
     \<and> length (concat (map snd (holeAssignments (randomizeTeamAssignments rnd d))))
         = min (length (teams d)) 28
     \<and> distinct (concat (map snd (holeAssignments (randomizeTeamAssignments rnd d))))
     \<and> mset (shuffle rnd (teams d)) = mset (teams d)
     \<and> (\<forall>zs. mset zs = mset (teams d) \<longrightarrow>
           (\<exists>rnd'. (\<forall>k. 0 \<le> rnd' k \<and> rnd' k < 1) \<and> shuffle rnd' (teams d) = zs))
     \<and> (\<forall>rnd' m. (\<forall>k. 0 \<le> rnd' k \<and> rnd' k < 1)
             \<and> shuffle rnd' (teams d) = shuffle rnd (teams d) \<and> m < length (teams d) - 1 \<longrightarrow>
           random_index (rnd' m) (length (teams d) - m)
             = random_index (rnd m) (length (teams d) - m))
     \<and> (\<forall>m j. m < length (teams d) - 1 \<longrightarrow>
           (random_index (rnd m) (length (teams d) - m) = j \<longleftrightarrow>
              of_nat j / of_nat (length (teams d) - m) \<le> rnd m
              \<and> rnd m < (of_nat j + 1) / of_nat (length (teams d) - m)))"
proof -
  let ?ids = "map id (teams d)"
  let ?sh = "shuffle rnd (teams d)"
  note a = autoAssignTeams_layout [OF assms(1,2)]
  note r = randomizeTeamAssignments_layout [OF assms]
  have m: "mset ?sh = mset (teams d)" by (rule shuffle_mset [OF assms(3)])
  then have mi: "mset (map id ?sh) = mset ?ids" by simp
  from mi assms(1) have d': "distinct (map id ?sh)" by (metis mset_eq_imp_distinct_iff)
  from mi assms(2) have z': "0 \<notin> set (map id ?sh)" by (metis set_mset_mset)
  from m have l: "length ?sh = length (teams d)" by (metis size_mset)
  from assms(1) have dt: "distinct (teams d)" by (simp add: distinct_map)
  note ca = layout_count [OF assms(1,2)]
  note cr = layout_count [OF d' z']
  have 1: "length (concat (map snd (holeAssignments (autoAssignTeams d)))) = min (length (teams d)) 28"
    using ca by (simp add: a)
  have 2: "distinct (concat (map snd (holeAssignments (autoAssignTeams d))))"
    using ca by (simp add: a)
  have 3: "length (concat (map snd (holeAssignments (randomizeTeamAssignments rnd d))))
         = min (length (teams d)) 28"
    using cr l by (simp add: r)
  have 4: "distinct (concat (map snd (holeAssignments (randomizeTeamAssignments rnd d))))"
    using cr by (simp add: r)
  have 5: "\<forall>zs. mset zs = mset (teams d) \<longrightarrow>
           (\<exists>rnd'. (\<forall>k. 0 \<le> rnd' k \<and> rnd' k < 1) \<and> shuffle rnd' (teams d) = zs)"
    using shuffle_surj by blast
  have 6: "\<forall>rnd' m. (\<forall>k. 0 \<le> rnd' k \<and> rnd' k < 1)
             \<and> shuffle rnd' (teams d) = shuffle rnd (teams d) \<and> m < length (teams d) - 1 \<longrightarrow>
           random_index (rnd' m) (length (teams d) - m)
             = random_index (rnd m) (length (teams d) - m)"
    using shuffle_inj [OF dt _ assms(3)] by blast
  have 7: "\<forall>m j. m < length (teams d) - 1 \<longrightarrow>
           (random_index (rnd m) (length (teams d) - m) = j \<longleftrightarrow>
              of_nat j / of_nat (length (teams d) - m) \<le> rnd m
              \<and> rnd m < (of_nat j + 1) / of_nat (length (teams d) - m))"
  proof (intro allI impI)
    fix m j
    assume "m < length (teams d) - 1"
    then have "0 < length (teams d) - m" by simp
    moreover from assms(3) have "0 \<le> rnd m" by simp
    ultimately show "random_index (rnd m) (length (teams d) - m) = j \<longleftrightarrow>
              of_nat j / of_nat (length (teams d) - m) \<le> rnd m
              \<and> rnd m < (of_nat j + 1) / of_nat (length (teams d) - m)"
      by (rule random_index_interval)
  qed
  from a 1 2 r 3 4 m 5 6 7 show ?thesis by blast
qed

lemma twenty_teams_ids: "map id (teams twenty_teams) = [1, 2, 3, 4, 5, 6, 7, 8, 9, 10, 11, 12, 13, 14, 15, 16, 17, 18, 19, 20]"
  by code_simp

lemma twenty_teams_layout:
  "two_pass_layout [1, 2, 3, 4, 5, 6, 7, 8, 9, 10, 11, 12, 13, 14, 15, 16, 17, 18, 19, 20] =
     [(1, [1]), (2, [2]), (3, [3, 19]), (4, [4, 20]), (5, [5]), (6, [6]),
      (7, [7]), (8, [8]), (9, [9]), (10, [10]), (11, [11]), (12, [12]),
      (13, [13]), (14, [14]), (15, [15]), (16, [16]), (17, [17]), (18, [18])]"
  by code_simp

theorem two_pass_assignment_witness:
  "distinct (map id (teams twenty_teams)) \<and> 0 \<notin> set (map id (teams twenty_teams))
   \<and> (\<forall>k. (0::rat) \<le> (\<lambda>k. 0) k \<and> (\<lambda>k. 0 :: rat) k < 1)
   \<and> holeAssignments (autoAssignTeams twenty_teams) =
       [(1, [1]), (2, [2]), (3, [3, 19]), (4, [4, 20]), (5, [5]), (6, [6]),
        (7, [7]), (8, [8]), (9, [9]), (10, [10]), (11, [11]), (12, [12]),
        (13, [13]), (14, [14]), (15, [15]), (16, [16]), (17, [17]), (18, [18])]
   \<and> length (concat (map snd (holeAssignments (randomizeTeamAssignments (\<lambda>k. 0) twenty_teams))))
       = 20"
proof -
  have h1: "distinct (map id (teams twenty_teams))" by (simp add: twenty_teams_ids)
  have h2: "0 \<notin> set (map id (teams twenty_teams))" by (simp add: twenty_teams_ids)
  have h3: "\<forall>k. (0::rat) \<le> (\<lambda>k. 0) k \<and> (\<lambda>k. 0 :: rat) k < 1" by simp
  have n: "length (teams twenty_teams) = 20" by (simp add: twenty_teams_def)
  note t = two_pass_assignment [OF h1 h2 h3]
  from t [THEN conjunct1] have "holeAssignments (autoAssignTeams twenty_teams) =
      two_pass_layout (map id (teams twenty_teams))"
    by simp
  then have a: "holeAssignments (autoAssignTeams twenty_teams) =
       [(1, [1]), (2, [2]), (3, [3, 19]), (4, [4, 20]), (5, [5]), (6, [6]),
        (7, [7]), (8, [8]), (9, [9]), (10, [10]), (11, [11]), (12, [12]),
        (13, [13]), (14, [14]), (15, [15]), (16, [16]), (17, [17]), (18, [18])]"
    by (simp only: twenty_teams_ids twenty_teams_layout)
  from t [THEN conjunct2, THEN conjunct2, THEN conjunct2, THEN conjunct2, THEN conjunct1] n
  have b: "length (concat (map snd (holeAssignments (randomizeTeamAssignments (\<lambda>k. 0) twenty_teams))))
       = 20"
    by simp
  from h1 h2 h3 a b show ?thesis by blast
qed

section \<open>The tee sheet\<close>




















lemma pad2_length: "length (pad2 a) = 2"
  by (simp add: pad2_def)














end
